theory Spec2Isabelle
  imports Complex_Main "HOL-Library.List_Lexorder" "HOL-Library.Product_Lexorder"
begin

section \<open>Deletion benchmark report analysis (cmd/stress/analyze\_results.py)\<close>

text \<open>
  The script reads textual reports of a deletion stress test, extracts the tree size, the
  branching factor and one entry per deletion pattern with two regular expressions, and
  draws three charts from the entries.

  Modelling decisions.
  \<^item> A Python \<open>str\<close> is a list of code points, each an \<open>int\<close>. The texts of the script
    itself are written \<open>str ''...''\<close>. File names and printed messages, which the script
    builds from its own ASCII literals, stay \<open>string\<close>s.
  \<^item> The character classes \<open>\d\<close> and \<open>\w\<close> of \<open>re\<close>, and \<open>int\<close> and \<open>float\<close>, follow the
    Unicode database. On ASCII the database is written out; beyond ASCII it is a
    parameter \<open>U\<close> of the model, and every theorem holds for every \<open>U\<close>.
  \<^item> A Python float is modelled by the exact rational value of its literal. Rounding to
    binary64 and overflow to infinity are not modelled.
  \<^item> A Python int is an \<open>int\<close>; \<open>int()\<close> refuses a string of more than 4300 digits, the
    default of the interpreter.
  \<^item> An exception is a value \<open>Inl e\<close> of a sum type.
\<close>

subsection \<open>Text and character classes\<close>

type_synonym ustring = "int list"

definition str :: "string \<Rightarrow> ustring" where
  "str s = map of_char s"

text \<open>
  The part of the Unicode database that the script depends on: \<open>alnum U c\<close> is
  \<open>Py_UNICODE_ISALNUM\<close> of the code point \<open>c\<close> and \<open>decimal U c\<close> its value as a decimal
  digit, if it is one (\<open>Py_UNICODE_TODECIMAL\<close>). Both are consulted beyond ASCII only.
\<close>

record unicode =
  alnum :: "int \<Rightarrow> bool"
  decimal :: "int \<Rightarrow> int option"

definition is_ascii :: "int \<Rightarrow> bool" where
  "is_ascii c = (0 \<le> c \<and> c < 128)"

text \<open>\<open>\d\<close>: the digits \<open>0\<close> to \<open>9\<close> (48 to 57) and the decimal digits of other scripts.\<close>

definition is_digit :: "unicode \<Rightarrow> int \<Rightarrow> bool" where
  "is_digit U c = (if is_ascii c then 48 \<le> c \<and> c \<le> 57 else decimal U c \<noteq> None)"

text \<open>\<open>\w\<close>: the digits, the letters \<open>A\<close> to \<open>Z\<close> (65 to 90) and \<open>a\<close> to \<open>z\<close> (97 to 122),
  the underscore (95) and the alphanumeric characters beyond ASCII.\<close>

definition is_word :: "unicode \<Rightarrow> int \<Rightarrow> bool" where
  "is_word U c =
     (if is_ascii c
      then (48 \<le> c \<and> c \<le> 57) \<or> (65 \<le> c \<and> c \<le> 90) \<or> (97 \<le> c \<and> c \<le> 122) \<or> c = 95
      else alnum U c)"

text \<open>The classes used by the script: \<open>\d\<close>, \<open>\w\<close>, \<open>[\d.]\<close> (the dot is 46) and \<open>.\<close> under
  \<open>re.DOTALL\<close>, which matches every character, the newline included.\<close>

datatype cclass = Digit | Word | DigitDot | AnyChar

fun in_class :: "unicode \<Rightarrow> cclass \<Rightarrow> int \<Rightarrow> bool" where
  "in_class U Digit c = is_digit U c"
| "in_class U Word c = is_word U c"
| "in_class U DigitDot c = (is_digit U c \<or> c = 46)"
| "in_class U AnyChar c = True"

subsection \<open>A backtracking matcher for the regular expressions of the script\<close>

text \<open>
  Both expressions of the script are sequences of literals and of repetitions of one
  character class. \<open>Rep c lo q\<close> repeats class \<open>c\<close> at least \<open>lo\<close> times: \<open>\d+\<close> is
  \<open>Rep Digit 1 Greedy\<close> and \<open>.*?\<close> is \<open>Rep AnyChar 0 Lazy\<close>.
\<close>

datatype quant = Greedy | Lazy

datatype atom = Lit ustring | Rep cclass nat quant

fun starts_with :: "ustring \<Rightarrow> ustring \<Rightarrow> bool" where
  "starts_with [] s = True"
| "starts_with (c # cs) [] = False"
| "starts_with (c # cs) (d # ds) = (c = d \<and> starts_with cs ds)"

text \<open>The repetition counts a quantifier tries, in the order in which it tries them: a
  greedy one from the longest run down, a lazy one from the shortest up.\<close>

fun counts :: "quant \<Rightarrow> nat \<Rightarrow> nat \<Rightarrow> nat list" where
  "counts Greedy lo hi = rev [lo..<Suc hi]"
| "counts Lazy lo hi = [lo..<Suc hi]"

text \<open>
  \<open>rmatch U as s\<close> lists every way in which the atoms \<open>as\<close> match a prefix of \<open>s\<close>, in the
  order in which a backtracking engine finds them. A match is the text each atom consumed
  together with the text left over. The engine of Python's \<open>re\<close> returns the first one.
\<close>

fun rmatch :: "unicode \<Rightarrow> atom list \<Rightarrow> ustring \<Rightarrow> (ustring list \<times> ustring) list" where
  "rmatch U [] s = [([], s)]"
| "rmatch U (Lit l # as) s =
     (if starts_with l s
      then map (\<lambda>(ps, r). (l # ps, r)) (rmatch U as (drop (length l) s))
      else [])"
| "rmatch U (Rep c lo q # as) s =
     concat (map (\<lambda>k. map (\<lambda>(ps, r). (take k s # ps, r)) (rmatch U as (drop k s)))
               (counts q lo (length (takeWhile (in_class U c) s))))"

definition match_here :: "unicode \<Rightarrow> atom list \<Rightarrow> ustring \<Rightarrow> (ustring list \<times> ustring) option" where
  "match_here U as s = (case rmatch U as s of [] \<Rightarrow> None | m # _ \<Rightarrow> Some m)"

text \<open>\<open>re.search\<close>: the first match at the leftmost position that has one.\<close>

fun re_search :: "unicode \<Rightarrow> atom list \<Rightarrow> ustring \<Rightarrow> ustring list option" where
  "re_search U as [] = map_option fst (match_here U as [])"
| "re_search U as (c # cs) =
     (case match_here U as (c # cs) of
        Some m \<Rightarrow> Some (fst m)
      | None \<Rightarrow> re_search U as cs)"

text \<open>\<open>re.findall\<close>: the matches from left to right, each search starting where the
  previous match ended. After an empty match the scan moves on by one character; the
  expression of the script starts with a literal and has no empty match.\<close>

function re_findall :: "unicode \<Rightarrow> atom list \<Rightarrow> ustring \<Rightarrow> ustring list list" where
  "re_findall U as s =
     (case match_here U as s of
        Some (ps, r) \<Rightarrow>
          ps # (if length r < length s then re_findall U as r
                else (case s of [] \<Rightarrow> [] | _ # t \<Rightarrow> re_findall U as t))
      | None \<Rightarrow> (case s of [] \<Rightarrow> [] | _ # t \<Rightarrow> re_findall U as t))"
  by pat_completeness auto
termination
  by (relation "measure (\<lambda>(U, as, s). length s)") auto

declare re_findall.simps [simp del]

subsection \<open>Python's \<open>int\<close>, \<open>float\<close>, \<open>in\<close> and \<open>replace\<close> on strings\<close>

datatype py_error = ValueError ustring | IsADirectoryError string | FileNotFoundError string

text \<open>The value of a decimal digit and of a string of decimal digits.\<close>

definition digit_val :: "unicode \<Rightarrow> int \<Rightarrow> int" where
  "digit_val U c =
     (if is_ascii c then c - 48 else (case decimal U c of Some d \<Rightarrow> d | None \<Rightarrow> 0))"

definition int_of_digits :: "unicode \<Rightarrow> ustring \<Rightarrow> int" where
  "int_of_digits U ds = foldl (\<lambda>n c. 10 * n + digit_val U c) 0 ds"

text \<open>
  \<open>int(s)\<close> for a string of decimal digits, the only strings the script passes to it. The
  interpreter refuses a string of more than \<open>sys.get_int_max_str_digits()\<close> digits, 4300
  unless configured otherwise, with a \<open>ValueError\<close>; leading zeros count.
\<close>

definition int_max_str_digits :: int where
  "int_max_str_digits = 4300"

definition py_int :: "unicode \<Rightarrow> ustring \<Rightarrow> py_error + int" where
  "py_int U ds =
     (if int_max_str_digits < int (length ds) then Inl (ValueError ds)
      else Inr (int_of_digits U ds))"

text \<open>
  \<open>float(s)\<close> follows the grammar of the language reference:
  \<^verbatim>\<open>digitpart ::= digit (["_"] digit)*\<close>,
  \<^verbatim>\<open>number ::= [digitpart] "." digitpart | digitpart ["."]\<close>,
  \<^verbatim>\<open>exponent ::= ("e" | "E") [sign] digitpart\<close>,
  \<^verbatim>\<open>floatnumber ::= number [exponent]\<close>,
  where a digit is a decimal digit of any script. Every string the script converts starts
  with a digit or a dot and holds no blank, so the leading sign, the surrounding blanks
  and the words \<open>inf\<close> and \<open>nan\<close> that \<open>float\<close> also accepts cannot occur and are left
  out. The code points named below are \<open>_\<close> (95), \<open>.\<close> (46), \<open>e\<close> (101), \<open>E\<close> (69),
  \<open>-\<close> (45) and \<open>+\<close> (43).
\<close>

fun digitpart_tail :: "unicode \<Rightarrow> ustring \<Rightarrow> ustring \<times> ustring" where
  "digitpart_tail U [] = ([], [])"
| "digitpart_tail U [c] = (if is_digit U c then ([c], []) else ([], [c]))"
| "digitpart_tail U (c # d # cs) =
     (if is_digit U c then (let (ds, r) = digitpart_tail U (d # cs) in (c # ds, r))
      else if c = 95 \<and> is_digit U d then (let (ds, r) = digitpart_tail U cs in (d # ds, r))
      else ([], c # d # cs))"

definition digitpart :: "unicode \<Rightarrow> ustring \<Rightarrow> (ustring \<times> ustring) option" where
  "digitpart U s =
     (case s of
        [] \<Rightarrow> None
      | c # cs \<Rightarrow> if is_digit U c then (let (ds, r) = digitpart_tail U cs in Some (c # ds, r))
                  else None)"

definition fraction :: "unicode \<Rightarrow> ustring \<Rightarrow> rat" where
  "fraction U ds = of_int (int_of_digits U ds) / 10 ^ length ds"

definition float_number :: "unicode \<Rightarrow> ustring \<Rightarrow> (rat \<times> ustring) option" where
  "float_number U s =
     (case digitpart U s of
        Some (ip, r) \<Rightarrow>
          (case r of
             [] \<Rightarrow> Some (of_int (int_of_digits U ip), [])
           | c # r' \<Rightarrow>
               if c = 46 then
                 (case digitpart U r' of
                    Some (fp, r'') \<Rightarrow> Some (of_int (int_of_digits U ip) + fraction U fp, r'')
                  | None \<Rightarrow> Some (of_int (int_of_digits U ip), r'))
               else Some (of_int (int_of_digits U ip), r))
      | None \<Rightarrow>
          (case s of
             [] \<Rightarrow> None
           | c # r' \<Rightarrow>
               if c = 46 then
                 (case digitpart U r' of
                    Some (fp, r'') \<Rightarrow> Some (fraction U fp, r'')
                  | None \<Rightarrow> None)
               else None))"

definition float_exponent :: "unicode \<Rightarrow> ustring \<Rightarrow> (bool \<times> nat) option" where
  "float_exponent U s =
     (let (neg, r) =
        (case s of
           [] \<Rightarrow> (False, s)
         | c # t \<Rightarrow> if c = 45 then (True, t)
                    else if c = 43 then (False, t) else (False, s))
      in case digitpart U r of
           Some (ds, []) \<Rightarrow> Some (neg, nat (int_of_digits U ds))
         | _ \<Rightarrow> None)"

definition py_float :: "unicode \<Rightarrow> ustring \<Rightarrow> py_error + rat" where
  "py_float U s =
     (case float_number U s of
        None \<Rightarrow> Inl (ValueError s)
      | Some (m, r) \<Rightarrow>
          (case r of
             [] \<Rightarrow> Inr m
           | c # r' \<Rightarrow>
               if c = 101 \<or> c = 69 then
                 (case float_exponent U r' of
                    Some (neg, n) \<Rightarrow> Inr (if neg then m / 10 ^ n else m * 10 ^ n)
                  | None \<Rightarrow> Inl (ValueError s))
               else Inl (ValueError s)))"

text \<open>\<open>sub in s\<close> for strings.\<close>

fun str_contains :: "ustring \<Rightarrow> ustring \<Rightarrow> bool" where
  "str_contains sub [] = (sub = [])"
| "str_contains sub (c # cs) = (starts_with sub (c # cs) \<or> str_contains sub cs)"

text \<open>\<open>s.replace(old, '')\<close> for a non-empty \<open>old\<close>: every occurrence found from left to
  right is removed, and the text left of the cut is not looked at again.\<close>

function remove_all :: "ustring \<Rightarrow> ustring \<Rightarrow> ustring" where
  "remove_all old [] = []"
| "remove_all old (c # cs) =
     (if old \<noteq> [] \<and> starts_with old (c # cs)
      then remove_all old (drop (length old) (c # cs))
      else c # remove_all old cs)"
  by pat_completeness auto
termination
  by (relation "measure (\<lambda>(old, s). length s)") (auto simp: neq_Nil_conv)

subsection \<open>The report parser: \<open>parse_result_file\<close>\<close>

record pattern_result =
  pattern :: ustring
  time_sec :: rat
  keys_per_sec :: rat

record report =
  tree_size :: int
  branching_factor :: int
  pattern_results :: "pattern_result list"

text \<open>\<^verbatim>\<open>Keys: (\d+)\<close> and \<^verbatim>\<open>Branching Factor: (\d+)\<close>; group 1 is the second atom.\<close>

definition keys_regex :: "atom list" where
  "keys_regex = [Lit (str ''Keys: ''), Rep Digit 1 Greedy]"

definition bf_regex :: "atom list" where
  "bf_regex = [Lit (str ''Branching Factor: ''), Rep Digit 1 Greedy]"

text \<open>\<open>int(m.group(1)) if m else 0\<close>.\<close>

definition int_field :: "unicode \<Rightarrow> atom list \<Rightarrow> ustring \<Rightarrow> py_error + int" where
  "int_field U rx content =
     (case re_search U rx content of
        Some ps \<Rightarrow> py_int U (ps ! 1)
      | None \<Rightarrow> Inr 0)"

text \<open>
  \<^verbatim>\<open>Running deletion test with pattern: (\w+).*?Deletion completed in ([\d.]+\w+) \(([\d.]+) keys/sec\)\<close>
  under \<open>re.DOTALL\<close>. Group 1 is atom 1, group 2 is atoms 4 and 5 together, group 3 is
  atom 7.
\<close>

definition section_regex :: "atom list" where
  "section_regex =
     [Lit (str ''Running deletion test with pattern: ''), Rep Word 1 Greedy,
      Rep AnyChar 0 Lazy, Lit (str ''Deletion completed in ''), Rep DigitDot 1 Greedy,
      Rep Word 1 Greedy, Lit (str '' (''), Rep DigitDot 1 Greedy, Lit (str '' keys/sec)'')]"

definition section_groups :: "ustring list \<Rightarrow> ustring \<times> ustring \<times> ustring" where
  "section_groups ps = (ps ! 1, ps ! 4 @ ps ! 5, ps ! 7)"

definition pattern_sections :: "unicode \<Rightarrow> ustring \<Rightarrow> (ustring \<times> ustring \<times> ustring) list" where
  "pattern_sections U content = map section_groups (re_findall U section_regex content)"

text \<open>The conversion of the duration token to seconds (lines 28 to 33).\<close>

definition convert_time :: "unicode \<Rightarrow> ustring \<Rightarrow> py_error + rat" where
  "convert_time U time_str =
     (if str_contains (str ''ms'') time_str then
        (case py_float U (remove_all (str ''ms'') time_str) of
           Inl e \<Rightarrow> Inl e
         | Inr v \<Rightarrow> Inr (v / 1000))
      else if str_contains (str ''s'') time_str then py_float U (remove_all (str ''s'') time_str)
      else py_float U time_str)"

text \<open>The loop over the matches (lines 26 to 39); a failing conversion leaves the loop.\<close>

fun pattern_loop ::
  "unicode \<Rightarrow> (ustring \<times> ustring \<times> ustring) list \<Rightarrow> pattern_result list
     \<Rightarrow> py_error + pattern_result list"
where
  "pattern_loop U [] acc = Inr acc"
| "pattern_loop U ((p, time_str, kps) # rest) acc =
     (case convert_time U time_str of
        Inl e \<Rightarrow> Inl e
      | Inr t \<Rightarrow>
          (case py_float U kps of
             Inl e \<Rightarrow> Inl e
           | Inr k \<Rightarrow>
               pattern_loop U rest
                 (acc @ [\<lparr>pattern = p, time_sec = t, keys_per_sec = k\<rparr>])))"

text \<open>Lines 13 to 45, in the order of the script: the tree size, the branching factor, the
  blocks.\<close>

definition parse_content :: "unicode \<Rightarrow> ustring \<Rightarrow> py_error + report" where
  "parse_content U content =
     (case int_field U keys_regex content of
        Inl e \<Rightarrow> Inl e
      | Inr ts \<Rightarrow>
          (case int_field U bf_regex content of
             Inl e \<Rightarrow> Inl e
           | Inr bf \<Rightarrow>
               (case pattern_loop U (pattern_sections U content) [] of
                  Inl e \<Rightarrow> Inl e
                | Inr prs \<Rightarrow>
                    Inr \<lparr>tree_size = ts, branching_factor = bf, pattern_results = prs\<rparr>)))"

subsection \<open>The file system and the effects of a run\<close>

text \<open>
  The file system is a map from paths to entries. \<open>os.path.exists\<close> holds of a file and of
  a directory alike; \<open>open\<close> reads a file and raises on a directory. The script reads
  reports and writes images under other names, so that no path it reads is one it has
  written: the file system is passed unchanged and the writes are recorded as events.
  Failures of the operating system other than these (permissions, undecodable bytes, a
  failing write) are not modelled.
\<close>

datatype fs_entry = File ustring | Directory

type_synonym filesystem = "string \<rightharpoonup> fs_entry"

definition path_exists :: "filesystem \<Rightarrow> string \<Rightarrow> bool" where
  "path_exists fs p = (fs p \<noteq> None)"

text \<open>\<open>colors[i]\<close> where \<open>colors = plt.cm.tab10(np.linspace(0, 1, n))\<close>: the colour is
  kept as the pair of \<open>n\<close> and \<open>i\<close> that determines it.\<close>

datatype color = Tab10 nat nat

text \<open>A call \<open>plt.plot(x, y, 'o-', label=pattern, color=colors[i])\<close>.\<close>

record line =
  line_label :: ustring
  line_color :: color
  line_x :: "int list"
  line_y :: "rat list"

text \<open>The figure at the time of \<open>plt.savefig\<close>: its title and its data, the lines of
  \<open>plt.plot\<close> or the names and heights of \<open>plt.bar\<close>. The axis labels, the scale, the
  grid and the size of the figure are constants of the script and are left out.\<close>

datatype chart =
    LineChart string "line list"
  | BarChart string "ustring list" "rat list"

text \<open>The effects of a run, in their order: a \<open>print\<close>, the reading of a file by
  \<open>parse_result_file\<close>, and \<open>plt.savefig\<close> with its path and the figure saved. A run
  ends with an exception or with a value.\<close>

datatype event = Print string | ReadFile string | SaveFig string chart

type_synonym 'a run = "event list \<times> (py_error + 'a)"

text \<open>\<open>str(n)\<close> as an f-string formats it.\<close>

function digits_of :: "int \<Rightarrow> string" where
  "digits_of n =
     (if n < 10 then [char_of (48 + n)]
      else digits_of (n div 10) @ [char_of (48 + n mod 10)])"
  by pat_completeness auto
termination
  by (relation "measure nat") auto

definition py_str :: "int \<Rightarrow> string" where
  "py_str n = (if n < 0 then CHR ''-'' # digits_of (- n) else digits_of n)"

text \<open>\<open>parse_result_file(filename)\<close>: lines 10 and 11 read the file, the rest parses.\<close>

definition parse_result_file :: "unicode \<Rightarrow> filesystem \<Rightarrow> string \<Rightarrow> py_error + report" where
  "parse_result_file U fs filename =
     (case fs filename of
        None \<Rightarrow> Inl (FileNotFoundError filename)
      | Some Directory \<Rightarrow> Inl (IsADirectoryError filename)
      | Some (File content) \<Rightarrow> parse_content U content)"

subsection \<open>Loading the reports of an analysis\<close>

text \<open>
  The loop of lines 52 to 55 and of lines 96 to 99: \<open>name\<close> is the f-string that builds the
  file name, \<open>results\<close> the list built so far, \<open>tr\<close> the events so far.
\<close>

fun load_results ::
  "unicode \<Rightarrow> filesystem \<Rightarrow> (int \<Rightarrow> string) \<Rightarrow> int list \<Rightarrow> report list \<Rightarrow> event list
     \<Rightarrow> report list run"
where
  "load_results U fs name [] results tr = (tr, Inr results)"
| "load_results U fs name (v # vs) results tr =
     (if path_exists fs (name v) then
        (case parse_result_file U fs (name v) of
           Inl e \<Rightarrow> (tr @ [ReadFile (name v)], Inl e)
         | Inr r \<Rightarrow> load_results U fs name vs (results @ [r]) (tr @ [ReadFile (name v)]))
      else load_results U fs name vs results tr)"

subsection \<open>The line charts: \<open>analyze_tree_sizes\<close> and \<open>analyze_branching_factors\<close>\<close>

text \<open>Lines 64 to 67: the set of the pattern names of all reports.\<close>

fun add_patterns :: "pattern_result list \<Rightarrow> ustring set \<Rightarrow> ustring set" where
  "add_patterns [] patterns = patterns"
| "add_patterns (pr # prs) patterns = add_patterns prs (insert (pattern pr) patterns)"

fun collect_patterns :: "report list \<Rightarrow> ustring set \<Rightarrow> ustring set" where
  "collect_patterns [] patterns = patterns"
| "collect_patterns (r # rs) patterns =
     collect_patterns rs (add_patterns (pattern_results r) patterns)"

text \<open>Lines 73 to 79: the points of one pattern; \<open>v\<close> is the independent variable of the
  report at hand (\<open>result['tree_size']\<close> or \<open>result['branching_factor']\<close>).\<close>

fun report_points ::
  "ustring \<Rightarrow> int \<Rightarrow> pattern_result list \<Rightarrow> int list \<times> rat list \<Rightarrow> int list \<times> rat list"
where
  "report_points p v [] (xs, ys) = (xs, ys)"
| "report_points p v (pr # prs) (xs, ys) =
     (if pattern pr = p then report_points p v prs (xs @ [v], ys @ [keys_per_sec pr])
      else report_points p v prs (xs, ys))"

fun series_points ::
  "(report \<Rightarrow> int) \<Rightarrow> ustring \<Rightarrow> report list \<Rightarrow> int list \<times> rat list \<Rightarrow> int list \<times> rat list"
where
  "series_points iv p [] xy = xy"
| "series_points iv p (r # rs) xy =
     series_points iv p rs (report_points p (iv r) (pattern_results r) xy)"

text \<open>Lines 72 to 80: one line per pattern; \<open>n\<close> is \<open>len(patterns)\<close> and \<open>i\<close> the index that
  \<open>enumerate\<close> gives.\<close>

fun plot_loop ::
  "(report \<Rightarrow> int) \<Rightarrow> report list \<Rightarrow> nat \<Rightarrow> nat \<Rightarrow> ustring list \<Rightarrow> line list \<Rightarrow> line list"
where
  "plot_loop iv results n i [] lines = lines"
| "plot_loop iv results n i (p # ps) lines =
     (case series_points iv p results ([], []) of
        (xs, ys) \<Rightarrow>
          plot_loop iv results n (Suc i) ps
            (lines @ [\<lparr>line_label = p, line_color = Tab10 n i, line_x = xs, line_y = ys\<rparr>]))"

definition sorted_patterns :: "report list \<Rightarrow> ustring list" where
  "sorted_patterns results = sorted_list_of_set (collect_patterns results {})"

definition plot_lines :: "(report \<Rightarrow> int) \<Rightarrow> report list \<Rightarrow> line list" where
  "plot_lines iv results =
     (let patterns = sorted_patterns results
      in plot_loop iv results (length patterns) 0 patterns [])"

text \<open>The two analyses differ in the candidate values, the file names, the independent
  variable and the texts.\<close>

definition line_analysis ::
  "unicode \<Rightarrow> int list \<Rightarrow> (int \<Rightarrow> string) \<Rightarrow> (report \<Rightarrow> int) \<Rightarrow> string \<Rightarrow> string \<Rightarrow> string
     \<Rightarrow> filesystem \<Rightarrow> unit run"
where
  "line_analysis U candidates name iv nothing title png fs =
     (case load_results U fs name candidates [] [] of
        (tr, Inl e) \<Rightarrow> (tr, Inl e)
      | (tr, Inr results) \<Rightarrow>
          if results = [] then (tr @ [Print nothing], Inr ())
          else (tr @ [SaveFig png (LineChart title (plot_lines iv results))], Inr ()))"

definition sizes :: "int list" where
  "sizes = [10000, 100000, 1000000]"

definition size_filename :: "int \<Rightarrow> string" where
  "size_filename sz = ''results/size_'' @ py_str sz @ ''.txt''"

definition analyze_tree_sizes :: "unicode \<Rightarrow> filesystem \<Rightarrow> unit run" where
  "analyze_tree_sizes U =
     line_analysis U sizes size_filename tree_size ''No tree size results found.''
       ''Deletion Performance vs Tree Size'' ''results/tree_size_performance.png''"

definition factors :: "int list" where
  "factors = [16, 64, 256, 1024]"

definition bf_filename :: "int \<Rightarrow> string" where
  "bf_filename bf = ''results/bf_'' @ py_str bf @ ''.txt''"

definition analyze_branching_factors :: "unicode \<Rightarrow> filesystem \<Rightarrow> unit run" where
  "analyze_branching_factors U =
     line_analysis U factors bf_filename branching_factor
       ''No branching factor results found.''
       ''Deletion Performance vs Branching Factor''
       ''results/branching_factor_performance.png''"

subsection \<open>The bar chart: \<open>analyze_patterns\<close>\<close>

text \<open>Lines 148 to 153.\<close>

fun bars_loop ::
  "pattern_result list \<Rightarrow> ustring list \<times> rat list \<Rightarrow> ustring list \<times> rat list"
where
  "bars_loop [] (patterns, speeds) = (patterns, speeds)"
| "bars_loop (pr # prs) (patterns, speeds) =
     bars_loop prs (patterns @ [pattern pr], speeds @ [keys_per_sec pr])"

text \<open>Lines 156 to 158: \<open>sorted\<close> orders the pairs by name and, for equal names, by
  speed.\<close>

definition sorted_bars :: "report \<Rightarrow> (ustring \<times> rat) list" where
  "sorted_bars result =
     (case bars_loop (pattern_results result) ([], []) of
        (patterns, speeds) \<Rightarrow> sort (zip patterns speeds))"

definition largest_file :: string where
  "largest_file = ''results/size_1000000.txt''"

definition analyze_patterns :: "unicode \<Rightarrow> filesystem \<Rightarrow> unit run" where
  "analyze_patterns U fs =
     (if \<not> path_exists fs largest_file
      then ([Print (''File '' @ largest_file @ '' not found.'')], Inr ())
      else
        (case parse_result_file U fs largest_file of
           Inl e \<Rightarrow> ([ReadFile largest_file], Inl e)
         | Inr result \<Rightarrow>
             (let sorted_data = sorted_bars result
              in ([ReadFile largest_file,
                   SaveFig ''results/pattern_performance.png''
                     (BarChart
                        (''Deletion Performance by Pattern (Tree Size: ''
                           @ py_str (tree_size result) @ '')'')
                        (map fst sorted_data) (map snd sorted_data))],
                  Inr ()))))"

subsection \<open>\<open>main\<close>\<close>

text \<open>An exception raised by an analysis leaves \<open>main\<close>: the script catches none.\<close>

definition main :: "unicode \<Rightarrow> filesystem \<Rightarrow> unit run" where
  "main U fs =
     (if \<not> path_exists fs ''results''
      then ([Print ''Results directory not found.''], Inr ())
      else
        (case analyze_tree_sizes U fs of
           (t1, Inl e) \<Rightarrow> (t1, Inl e)
         | (t1, Inr _) \<Rightarrow>
             (case analyze_branching_factors U fs of
                (t2, Inl e) \<Rightarrow> (t1 @ t2, Inl e)
              | (t2, Inr _) \<Rightarrow>
                  (case analyze_patterns U fs of
                     (t3, Inl e) \<Rightarrow> (t1 @ t2 @ t3, Inl e)
                   | (t3, Inr _) \<Rightarrow>
                       (t1 @ t2 @ t3
                          @ [Print ''Analysis complete. Graphs saved to results directory.''],
                        Inr ())))))"

subsection \<open>Notions of the specification and sample inputs\<close>

text \<open>
  The Unicode database on the code points below 256. The alphanumeric characters beyond
  ASCII are the two ordinal indicators (170, 186), the superscripts two, three and one
  (178, 179, 185), the micro sign (181), the three fractions (188 to 190) and the letters
  from 192 to 255 without the two operators 215 and 247; none is a decimal digit. It serves
  the sample inputs, all of which stay below 256.
\<close>

definition latin1 :: unicode where
  "latin1 =
     \<lparr>alnum = (\<lambda>c. c = 170 \<or> (178 \<le> c \<and> c \<le> 179) \<or> c = 181 \<or> (185 \<le> c \<and> c \<le> 186)
                  \<or> (188 \<le> c \<and> c \<le> 190) \<or> (192 \<le> c \<and> c \<le> 214)
                  \<or> (216 \<le> c \<and> c \<le> 246) \<or> (248 \<le> c \<and> c \<le> 255)),
      decimal = (\<lambda>c. None)\<rparr>"

text \<open>The candidate values whose file exists, in the order of the candidates.\<close>

definition present :: "filesystem \<Rightarrow> (int \<Rightarrow> string) \<Rightarrow> int list \<Rightarrow> int list" where
  "present fs name vs = filter (\<lambda>v. path_exists fs (name v)) vs"

text \<open>Reports for the sizes 10000 and 1000000 and none for 100000.\<close>

definition scenario_C :: filesystem where
  "scenario_C =
     [''results'' \<mapsto> Directory,
      ''results/size_10000.txt'' \<mapsto> File (str ''Keys: 10000''),
      ''results/size_1000000.txt'' \<mapsto> File (str ''Keys: 1000000'')]"

text \<open>Only the directory exists: no report at all.\<close>

definition only_directory :: filesystem where
  "only_directory = [''results'' \<mapsto> Directory]"

text \<open>The distinct pattern names of all reports.\<close>

definition all_patterns :: "report list \<Rightarrow> ustring set" where
  "all_patterns results = (\<Union>r \<in> set results. pattern ` set (pattern_results r))"

text \<open>The entries of a report that carry the pattern name \<open>p\<close>, in the order of the report.\<close>

definition occurrences :: "ustring \<Rightarrow> report \<Rightarrow> pattern_result list" where
  "occurrences p r = filter (\<lambda>pr. pattern pr = p) (pattern_results r)"

text \<open>One point per occurrence of the pattern: reports in the order of the loader, the
  occurrences of a report in the order of its text.\<close>

definition points :: "(report \<Rightarrow> int) \<Rightarrow> ustring \<Rightarrow> report list \<Rightarrow> (int \<times> rat) list" where
  "points iv p results =
     concat (map (\<lambda>r. map (\<lambda>pr. (iv r, keys_per_sec pr)) (occurrences p r)) results)"

text \<open>Two reports with the patterns in different orders; \<open>random\<close> occurs twice in the
  second.\<close>

definition scenario_D :: "report list" where
  "scenario_D =
     [\<lparr>tree_size = 10000, branching_factor = 16, pattern_results =
         [\<lparr>pattern = str ''sequential'', time_sec = 1, keys_per_sec = 7\<rparr>,
          \<lparr>pattern = str ''random'', time_sec = 2, keys_per_sec = 5\<rparr>]\<rparr>,
      \<lparr>tree_size = 1000000, branching_factor = 16, pattern_results =
         [\<lparr>pattern = str ''random'', time_sec = 3, keys_per_sec = 4\<rparr>,
          \<lparr>pattern = str ''sequential'', time_sec = 1, keys_per_sec = 6\<rparr>,
          \<lparr>pattern = str ''random'', time_sec = 3, keys_per_sec = 3\<rparr>]\<rparr>]"

text \<open>Other reports with the same set of pattern names.\<close>

definition scenario_D_reordered :: "report list" where
  "scenario_D_reordered =
     [\<lparr>tree_size = 100000, branching_factor = 64, pattern_results =
         [\<lparr>pattern = str ''random'', time_sec = 2, keys_per_sec = 9\<rparr>]\<rparr>,
      \<lparr>tree_size = 100000, branching_factor = 256, pattern_results =
         [\<lparr>pattern = str ''sequential'', time_sec = 1, keys_per_sec = 8\<rparr>]\<rparr>]"

text \<open>\<open>s.endswith(suffix)\<close>: the reading of "ends in a suffix" in the specification.\<close>

definition ends_with :: "ustring \<Rightarrow> ustring \<Rightarrow> bool" where
  "ends_with suffix s = starts_with (rev suffix) (rev s)"

text \<open>A block whose duration token holds \<open>ms\<close> in the middle.\<close>

definition odd_token :: ustring where
  "odd_token =
     str ''Running deletion test with pattern: a Deletion completed in 1ms5 (3 keys/sec)''"

text \<open>A report with one block and a duration in milliseconds.\<close>

definition scenario_A :: ustring where
  "scenario_A =
     str ''Keys: 7 Branching Factor: 64 ''
     @ str ''Running deletion test with pattern: a Deletion completed in 250ms (4.50 keys/sec)''"

text \<open>A block whose duration \<open>1.2.3\<close> is no number, in a tree size report and in a
  branching factor report.\<close>

definition malformed :: ustring where
  "malformed =
     str ''Running deletion test with pattern: a Deletion completed in 1.2.3s (5 keys/sec)''"

definition malformed_size :: filesystem where
  "malformed_size =
     [''results'' \<mapsto> Directory,
      ''results/size_10000.txt'' \<mapsto> File malformed,
      ''results/bf_16.txt'' \<mapsto> File (str ''Branching Factor: 16'')]"

definition malformed_factor :: filesystem where
  "malformed_factor =
     [''results'' \<mapsto> Directory,
      ''results/bf_64.txt'' \<mapsto> File malformed]"

text \<open>The distinct pattern names of one report.\<close>

definition names_of :: "report \<Rightarrow> ustring set" where
  "names_of result = pattern ` set (pattern_results result)"

text \<open>A report with two blocks of the same pattern name, and what it parses to.\<close>

definition twice_a :: ustring where
  "twice_a =
     str ''Running deletion test with pattern: a Deletion completed in 1s (7 keys/sec) ''
     @ str ''Running deletion test with pattern: a Deletion completed in 2s (5 keys/sec)''"

definition twice_a_report :: report where
  "twice_a_report =
     \<lparr>tree_size = 0, branching_factor = 0, pattern_results =
        [\<lparr>pattern = str ''a'', time_sec = 1, keys_per_sec = 7\<rparr>,
         \<lparr>pattern = str ''a'', time_sec = 2, keys_per_sec = 5\<rparr>]\<rparr>"

text \<open>A report with two pattern names, the larger one first.\<close>

definition b_then_a :: report where
  "b_then_a =
     \<lparr>tree_size = 1000000, branching_factor = 0, pattern_results =
        [\<lparr>pattern = str ''b'', time_sec = 1, keys_per_sec = 7\<rparr>,
         \<lparr>pattern = str ''a'', time_sec = 2, keys_per_sec = 9\<rparr>]\<rparr>"

definition b_then_a_files :: filesystem where
  "b_then_a_files =
     [''results'' \<mapsto> Directory,
      largest_file \<mapsto> File
        (str ''Keys: 1000000 ''
         @ str ''Running deletion test with pattern: b Deletion completed in 1s (7 keys/sec) ''
         @ str ''Running deletion test with pattern: a Deletion completed in 2s (9 keys/sec)'')]"

text \<open>The texts an atom stands for: a literal for itself, a repetition for the texts of
  its class that are long enough.\<close>

fun denotes :: "unicode \<Rightarrow> atom \<Rightarrow> ustring \<Rightarrow> bool" where
  "denotes U (Lit l) p = (p = l)"
| "denotes U (Rep c lo q) p = (lo \<le> length p \<and> list_all (in_class U c) p)"

text \<open>A text contains a marker when a part of it is in the language of the expression.\<close>

definition marker_present :: "unicode \<Rightarrow> atom list \<Rightarrow> ustring \<Rightarrow> bool" where
  "marker_present U rx s =
     (\<exists>pre ps post. s = pre @ concat ps @ post \<and> list_all2 (denotes U) rx ps)"

text \<open>The matcher finds a match at some position of the text.\<close>

definition found_at :: "unicode \<Rightarrow> atom list \<Rightarrow> ustring \<Rightarrow> bool" where
  "found_at U rx s = (\<exists>i \<le> length s. rmatch U rx (drop i s) \<noteq> [])"

text \<open>A text with the words of both markers but without their integers, and a text whose
  tree size has 4301 digits.\<close>

definition no_fields :: ustring where
  "no_fields = str ''Keys: none, Branching Factor: unknown''"

definition long_keys :: ustring where
  "long_keys = str ''Keys: '' @ replicate 4301 49"

text \<open>The literal that announces a trial, and the part of the expression of the blocks that
  matches the completion line.\<close>

definition start_marker :: ustring where
  "start_marker = str ''Running deletion test with pattern: ''"

definition completion_regex :: "atom list" where
  "completion_regex =
     [Lit (str ''Deletion completed in ''), Rep DigitDot 1 Greedy, Rep Word 1 Greedy,
      Lit (str '' (''), Rep DigitDot 1 Greedy, Lit (str '' keys/sec)'')]"

text \<open>The completion line for a duration token and a throughput.\<close>

definition completion_marker :: "ustring \<Rightarrow> ustring \<Rightarrow> ustring" where
  "completion_marker tok num =
     str ''Deletion completed in '' @ tok @ str '' ('' @ num @ str '' keys/sec)''"

text \<open>The entries that lines 22 to 39 build, or the error they raise.\<close>

definition entries :: "unicode \<Rightarrow> ustring \<Rightarrow> py_error + pattern_result list" where
  "entries U content = pattern_loop U (pattern_sections U content) []"

text \<open>The rest of a text after a start marker that no completion line follows, a text with
  one complete block, and the header lines of a report.\<close>

definition dangling :: ustring where
  "dangling = str ''b and nothing more''"

definition one_block :: ustring where
  "one_block =
     str ''Running deletion test with pattern: a Deletion completed in 2ms (7 keys/sec) ''"

definition header :: ustring where
  "header = str ''Keys: 100000 Branching Factor: 64 ''"

text \<open>Two start markers on lines of their own (10 is the line feed) before one completion
  line, the first of them without a name.\<close>

definition nameless_first :: ustring where
  "nameless_first =
     str ''Running deletion test with pattern: '' @ [10]
     @ str ''Running deletion test with pattern: b'' @ [10]
     @ str ''Deletion completed in 2ms (7 keys/sec)''"

section \<open>Properties\<close>

subsection \<open>The loader\<close>

lemma load_results_Inr:
  "load_results U fs name vs results tr = (tr', Inr rs) \<Longrightarrow>
     \<exists>new. rs = results @ new
       \<and> list_all2 (\<lambda>v r. parse_result_file U fs (name v) = Inr r) (present fs name vs) new
       \<and> tr' = tr @ map (\<lambda>v. ReadFile (name v)) (present fs name vs)"
proof (induction vs arbitrary: results tr)
  case Nil
  then show ?case by (simp add: present_def)
next
  case (Cons v vs)
  show ?case
  proof (cases "path_exists fs (name v)")
    case False
    with Cons.prems have "load_results U fs name vs results tr = (tr', Inr rs)" by simp
    from Cons.IH[OF this] False show ?thesis by (simp add: present_def)
  next
    case True
    with Cons.prems obtain r where r: "parse_result_file U fs (name v) = Inr r"
      and rest: "load_results U fs name vs (results @ [r]) (tr @ [ReadFile (name v)]) = (tr', Inr rs)"
      by (auto split: sum.splits)
    from Cons.IH[OF rest] obtain new where
      "rs = (results @ [r]) @ new"
      "list_all2 (\<lambda>v r. parse_result_file U fs (name v) = Inr r) (present fs name vs) new"
      "tr' = (tr @ [ReadFile (name v)]) @ map (\<lambda>v. ReadFile (name v)) (present fs name vs)"
      by blast
    with True r show ?thesis
      by (intro exI[of _ "r # new"]) (simp add: present_def)
  qed
qed

lemma load_results_Inl:
  "load_results U fs name vs results tr = (tr', Inl e) \<Longrightarrow>
     \<exists>v \<in> set (present fs name vs). parse_result_file U fs (name v) = Inl e"
  by (induction vs arbitrary: results tr) (auto simp: present_def split: if_splits sum.splits)

text \<open>
  Claim C5. The loader returns one report per candidate value whose file exists, in the
  order of the candidates, and reads exactly those files; a candidate without a file adds
  no entry and raises nothing, so that the number of reports is the number of files
  present. The only error the loader can raise is the one raised while a file that is
  present is read and parsed, and when each of these parses the loader returns.
\<close>

theorem loader_follows_candidates:
  assumes "load_results U fs name vs [] [] = (tr, out)"
  shows "(\<forall>rs. out = Inr rs \<longrightarrow>
            list_all2 (\<lambda>v r. parse_result_file U fs (name v) = Inr r) (present fs name vs) rs
            \<and> length rs = length (present fs name vs)
            \<and> tr = map (\<lambda>v. ReadFile (name v)) (present fs name vs))
       \<and> (\<forall>e. out = Inl e \<longrightarrow>
            (\<exists>v \<in> set (present fs name vs). parse_result_file U fs (name v) = Inl e))
       \<and> ((\<forall>v \<in> set (present fs name vs). \<exists>r. parse_result_file U fs (name v) = Inr r)
            \<longrightarrow> (\<exists>rs. out = Inr rs))"
proof (cases out)
  case (Inl e)
  from load_results_Inl[OF assms[unfolded Inl]]
  obtain v where v: "v \<in> set (present fs name vs)" "parse_result_file U fs (name v) = Inl e"
    by blast
  then have ex: "\<exists>v \<in> set (present fs name vs). parse_result_file U fs (name v) = Inl e"
    by blast
  from v have "\<not> (\<forall>v \<in> set (present fs name vs). \<exists>r. parse_result_file U fs (name v) = Inr r)"
    by (metis sum.distinct(1))
  with ex show ?thesis
    using Inl by simp
next
  case (Inr rs)
  from load_results_Inr[OF assms[unfolded Inr]] show ?thesis
    using Inr by (auto dest: list_all2_lengthD)
qed

theorem loader_follows_candidates_witness:
  "load_results latin1 scenario_C size_filename sizes [] []
     = ([ReadFile ''results/size_10000.txt'', ReadFile ''results/size_1000000.txt''],
        Inr [\<lparr>tree_size = 10000, branching_factor = 0, pattern_results = []\<rparr>,
             \<lparr>tree_size = 1000000, branching_factor = 0, pattern_results = []\<rparr>])
   \<and> present scenario_C size_filename sizes = [10000, 1000000]
   \<and> length (present scenario_C size_filename sizes) = 2"
proof -
  have run: "load_results latin1 scenario_C size_filename sizes [] []
     = ([ReadFile ''results/size_10000.txt'', ReadFile ''results/size_1000000.txt''],
        Inr [\<lparr>tree_size = 10000, branching_factor = 0, pattern_results = []\<rparr>,
             \<lparr>tree_size = 1000000, branching_factor = 0, pattern_results = []\<rparr>])"
    by code_simp
  have p: "present scenario_C size_filename sizes = [10000, 1000000]"
    by code_simp
  from loader_follows_candidates[OF run] p run show ?thesis by simp
qed

subsection \<open>The entry point\<close>

text \<open>
  Claim C8. When no entry \<open>results\<close> exists, \<open>main U\<close> prints the diagnostic and returns:
  the print is the only effect of the run, so that no file is read, no image is written
  and no analysis is entered.
\<close>

theorem main_without_results_directory:
  "fs ''results'' = None \<Longrightarrow> main U fs = ([Print ''Results directory not found.''], Inr ())"
  by (simp add: main_def path_exists_def)

theorem main_without_results_directory_witness:
  "[''results/size_10000.txt'' \<mapsto> File (str ''Keys: 10000'')] ''results'' = None
   \<and> main latin1 [''results/size_10000.txt'' \<mapsto> File (str ''Keys: 10000'')]
       = ([Print ''Results directory not found.''], Inr ())"
  using main_without_results_directory
      [of "[''results/size_10000.txt'' \<mapsto> File (str ''Keys: 10000'')]" latin1]
  by simp

subsection \<open>An analysis without data\<close>

lemma load_results_nothing:
  assumes "snd (load_results U fs name vs [] []) = Inr []"
  shows "load_results U fs name vs [] [] = ([], Inr [])"
proof -
  obtain tr where run: "load_results U fs name vs [] [] = (tr, Inr [])"
    using assms by (cases "load_results U fs name vs [] []") simp
  from load_results_Inr[OF run]
  have "present fs name vs = []" "tr = map (\<lambda>v. ReadFile (name v)) (present fs name vs)"
    by auto
  then show ?thesis using run by simp
qed

lemma line_analysis_nothing:
  "snd (load_results U fs name vs [] []) = Inr [] \<Longrightarrow>
     line_analysis U vs name iv nothing title png fs = ([Print nothing], Inr ())"
  by (simp add: line_analysis_def load_results_nothing)

lemma analyze_patterns_absent:
  "fs largest_file = None \<Longrightarrow>
     analyze_patterns U fs = ([Print ''File results/size_1000000.txt not found.''], Inr ())"
  by (simp add: analyze_patterns_def path_exists_def largest_file_def)

text \<open>
  Claim C9. An analysis by tree size or by branching factor that loads no report prints
  its diagnostic and returns normally, without a chart and without having read a file. The
  analysis by pattern does the same when \<open>results/size_1000000.txt\<close> is absent, and
  \<open>main U\<close> then goes on to its completion message.
\<close>

theorem no_data_skips_analysis:
  "(snd (load_results U fs size_filename sizes [] []) = Inr [] \<longrightarrow>
      analyze_tree_sizes U fs = ([Print ''No tree size results found.''], Inr ()))
   \<and> (snd (load_results U fs bf_filename factors [] []) = Inr [] \<longrightarrow>
      analyze_branching_factors U fs = ([Print ''No branching factor results found.''], Inr ()))
   \<and> (fs largest_file = None \<longrightarrow>
      analyze_patterns U fs = ([Print ''File results/size_1000000.txt not found.''], Inr ()))
   \<and> (fs ''results'' \<noteq> None \<and> analyze_tree_sizes U fs = (t1, Inr ())
        \<and> analyze_branching_factors U fs = (t2, Inr ()) \<and> fs largest_file = None \<longrightarrow>
      main U fs = (t1 @ t2 @ [Print ''File results/size_1000000.txt not found.'',
                           Print ''Analysis complete. Graphs saved to results directory.''],
                 Inr ()))"
  by (simp add: analyze_tree_sizes_def analyze_branching_factors_def line_analysis_nothing
      analyze_patterns_absent main_def path_exists_def)

theorem no_data_skips_analysis_witness:
  "snd (load_results latin1 only_directory size_filename sizes [] []) = Inr []
   \<and> snd (load_results latin1 only_directory bf_filename factors [] []) = Inr []
   \<and> only_directory largest_file = None
   \<and> only_directory ''results'' \<noteq> None
   \<and> main latin1 only_directory =
       ([Print ''No tree size results found.'', Print ''No branching factor results found.'',
         Print ''File results/size_1000000.txt not found.'',
         Print ''Analysis complete. Graphs saved to results directory.''], Inr ())"
proof -
  have a: "snd (load_results latin1 only_directory size_filename sizes [] []) = Inr []"
    by code_simp
  have b: "snd (load_results latin1 only_directory bf_filename factors [] []) = Inr []"
    by code_simp
  have c: "only_directory largest_file = None"
    by code_simp
  have d: "only_directory ''results'' \<noteq> None"
    by code_simp
  from no_data_skips_analysis[of latin1 only_directory "[Print ''No tree size results found.'']"
      "[Print ''No branching factor results found.'']"] a b c d
  show ?thesis by simp
qed

subsection \<open>The series of the line charts\<close>

lemma add_patterns_eq: "add_patterns prs S = S \<union> pattern ` set prs"
  by (induction prs arbitrary: S) auto

lemma collect_patterns_eq: "collect_patterns rs S = S \<union> all_patterns rs"
  by (induction rs arbitrary: S) (auto simp: all_patterns_def add_patterns_eq)

lemma finite_all_patterns: "finite (all_patterns rs)"
  by (simp add: all_patterns_def)

lemma sorted_patterns_eq: "sorted_patterns rs = sorted_list_of_set (all_patterns rs)"
  by (simp add: sorted_patterns_def collect_patterns_eq)

lemma report_points_eq:
  "report_points p v prs (xs, ys) =
     (xs @ map (\<lambda>pr. v) (filter (\<lambda>pr. pattern pr = p) prs),
      ys @ map keys_per_sec (filter (\<lambda>pr. pattern pr = p) prs))"
  by (induction prs arbitrary: xs ys) auto

lemma series_points_eq:
  "series_points iv p rs (xs, ys) =
     (xs @ map fst (points iv p rs), ys @ map snd (points iv p rs))"
  by (induction rs arbitrary: xs ys)
     (simp_all add: report_points_eq points_def occurrences_def comp_def)

lemma plot_loop_eq:
  "plot_loop iv results n i ps lines =
     lines @ map (\<lambda>(j, p). \<lparr>line_label = p, line_color = Tab10 n j,
                             line_x = map fst (points iv p results),
                             line_y = map snd (points iv p results)\<rparr>) (enumerate i ps)"
  by (induction ps arbitrary: i lines) (simp_all add: series_points_eq)

lemma plot_lines_eq:
  "plot_lines iv results =
     map (\<lambda>(j, p). \<lparr>line_label = p, line_color = Tab10 (card (all_patterns results)) j,
                     line_x = map fst (points iv p results),
                     line_y = map snd (points iv p results)\<rparr>)
         (enumerate 0 (sorted_list_of_set (all_patterns results)))"
  by (simp add: plot_lines_def plot_loop_eq sorted_patterns_eq Let_def)

lemma plot_lines_labels:
  "map line_label (plot_lines iv results) = sorted_list_of_set (all_patterns results)"
  by (simp add: plot_lines_eq comp_def case_prod_unfold map_snd_enumerate)

lemma length_points:
  "length (points iv p results) = (\<Sum>r \<leftarrow> results. length (occurrences p r))"
  by (simp add: points_def length_concat comp_def)

text \<open>
  Claim C4. The lines of a chart are labelled by the distinct pattern names of all reports
  in ascending lexicographic order. The line of a pattern has one point per occurrence of
  the pattern: the value of the independent variable of the report paired with the
  throughput of the occurrence, reports in loader order, nothing merged or averaged.
\<close>

theorem series_order_and_points:
  "map line_label (plot_lines iv results) = sorted_list_of_set (all_patterns results)
   \<and> sorted_wrt (<) (map line_label (plot_lines iv results))
   \<and> set (map line_label (plot_lines iv results)) = all_patterns results
   \<and> (\<forall>l \<in> set (plot_lines iv results).
         zip (line_x l) (line_y l) = points iv (line_label l) results
         \<and> length (line_x l) = (\<Sum>r \<leftarrow> results. length (occurrences (line_label l) r))
         \<and> length (line_y l) = (\<Sum>r \<leftarrow> results. length (occurrences (line_label l) r)))"
proof -
  have pts: "\<forall>l \<in> set (plot_lines iv results).
         zip (line_x l) (line_y l) = points iv (line_label l) results
         \<and> length (line_x l) = (\<Sum>r \<leftarrow> results. length (occurrences (line_label l) r))
         \<and> length (line_y l) = (\<Sum>r \<leftarrow> results. length (occurrences (line_label l) r))"
    by (auto simp: plot_lines_eq zip_map_fst_snd length_points)
  show ?thesis
    using pts by (simp add: plot_lines_labels finite_all_patterns)
qed

text \<open>
  Claim C7. The labels and colours of the lines, in their order, are a function of the set
  of pattern names alone: reports with the same set of names give the same sequence, in
  which the pattern at position \<open>i\<close> of the sorted names has the colour that \<open>i\<close> and the
  number of names determine.
\<close>

theorem colours_depend_on_pattern_set:
  "(all_patterns results1 = all_patterns results2 \<longrightarrow>
      map (\<lambda>l. (line_label l, line_color l)) (plot_lines iv1 results1)
        = map (\<lambda>l. (line_label l, line_color l)) (plot_lines iv2 results2))
   \<and> map (\<lambda>l. (line_label l, line_color l)) (plot_lines iv1 results1)
        = map (\<lambda>(i, p). (p, Tab10 (card (all_patterns results1)) i))
            (enumerate 0 (sorted_list_of_set (all_patterns results1)))"
  by (simp add: plot_lines_eq comp_def case_prod_unfold)

theorem series_order_and_points_witness:
  "plot_lines tree_size scenario_D =
     [\<lparr>line_label = str ''random'', line_color = Tab10 2 0,
        line_x = [10000, 1000000, 1000000], line_y = [5, 4, 3]\<rparr>,
      \<lparr>line_label = str ''sequential'', line_color = Tab10 2 1,
        line_x = [10000, 1000000], line_y = [7, 6]\<rparr>]
   \<and> sorted_list_of_set (all_patterns scenario_D) = [str ''random'', str ''sequential'']
   \<and> points tree_size (str ''random'') scenario_D = [(10000, 5), (1000000, 4), (1000000, 3)]
   \<and> points tree_size (str ''sequential'') scenario_D = [(10000, 7), (1000000, 6)]"
proof -
  have run: "plot_lines tree_size scenario_D =
     [\<lparr>line_label = str ''random'', line_color = Tab10 2 0,
        line_x = [10000, 1000000, 1000000], line_y = [5, 4, 3]\<rparr>,
      \<lparr>line_label = str ''sequential'', line_color = Tab10 2 1,
        line_x = [10000, 1000000], line_y = [7, 6]\<rparr>]"
    by code_simp
  from series_order_and_points[of tree_size scenario_D] show ?thesis
    unfolding run by simp
qed

theorem colours_depend_on_pattern_set_witness:
  "all_patterns scenario_D = all_patterns scenario_D_reordered
   \<and> map (\<lambda>l. (line_label l, line_color l)) (plot_lines tree_size scenario_D)
       = map (\<lambda>l. (line_label l, line_color l)) (plot_lines branching_factor scenario_D_reordered)
   \<and> map (\<lambda>l. (line_label l, line_color l)) (plot_lines tree_size scenario_D)
       = [(str ''random'', Tab10 2 0), (str ''sequential'', Tab10 2 1)]"
proof -
  have same: "all_patterns scenario_D = all_patterns scenario_D_reordered"
    by (auto simp: all_patterns_def scenario_D_def scenario_D_reordered_def)
  have run: "map (\<lambda>l. (line_label l, line_color l)) (plot_lines tree_size scenario_D)
       = [(str ''random'', Tab10 2 0), (str ''sequential'', Tab10 2 1)]"
    by code_simp
  from colours_depend_on_pattern_set[of scenario_D scenario_D_reordered tree_size branching_factor]
    same run
  show ?thesis by simp
qed

subsection \<open>The duration token\<close>

lemma starts_with_iff: "starts_with l s \<longleftrightarrow> (\<exists>r. s = l @ r)"
  by (induction l s rule: starts_with.induct) auto

lemma str_contains_iff: "str_contains sub s \<longleftrightarrow> (\<exists>pre post. s = pre @ sub @ post)"
proof (induction s)
  case Nil
  then show ?case by auto
next
  case (Cons c cs)
  show ?case
  proof
    assume "str_contains sub (c # cs)"
    then consider "starts_with sub (c # cs)" | "str_contains sub cs" by auto
    then show "\<exists>pre post. c # cs = pre @ sub @ post"
    proof cases
      case 1
      then obtain r where "c # cs = sub @ r" by (auto simp: starts_with_iff)
      then have "c # cs = [] @ sub @ r" by simp
      then show ?thesis by blast
    next
      case 2
      with Cons.IH obtain pre post where "cs = pre @ sub @ post" by blast
      then have "c # cs = (c # pre) @ sub @ post" by simp
      then show ?thesis by blast
    qed
  next
    assume "\<exists>pre post. c # cs = pre @ sub @ post"
    then obtain pre post where eq: "c # cs = pre @ sub @ post" by blast
    show "str_contains sub (c # cs)"
    proof (cases pre)
      case Nil
      with eq have "starts_with sub (c # cs)" by (auto simp: starts_with_iff)
      then show ?thesis by simp
    next
      case (Cons d pre')
      with eq have "cs = pre' @ sub @ post" by simp
      with Cons.IH have "str_contains sub cs" by blast
      then show ?thesis by simp
    qed
  qed
qed

lemma str_contains_char: "str_contains [c] s \<longleftrightarrow> c \<in> set s"
  by (induction s) auto

lemma remove_all_char: "remove_all [c] s = filter (\<lambda>d. d \<noteq> c) s"
  by (induction s) auto

lemma remove_all_suffix_pair:
  "a \<noteq> b \<Longrightarrow> \<not> str_contains [a, b] n \<Longrightarrow> remove_all [a, b] (n @ [a, b]) = n"
proof (induction n)
  case Nil
  then show ?case by simp
next
  case (Cons c n)
  from Cons.prems have no: "\<not> starts_with [a, b] (c # n)" and rest: "\<not> str_contains [a, b] n"
    by auto
  have "\<not> starts_with [a, b] (c # n @ [a, b])"
  proof (cases n)
    case Nil
    with Cons.prems(1) show ?thesis by auto
  next
    case (Cons d n')
    with no show ?thesis by simp
  qed
  with Cons.IH[OF Cons.prems(1) rest] show ?case by (simp del: starts_with.simps)
qed

lemma no_pair_in_plain_suffix:
  assumes "b \<notin> set n" and "\<not> ends_with [a] n"
  shows "\<not> str_contains [a, b] (n @ [b])"
proof
  assume "str_contains [a, b] (n @ [b])"
  then obtain pre post where eq: "n @ [b] = pre @ [a, b] @ post"
    by (auto simp: str_contains_iff)
  show False
  proof (cases post rule: rev_cases)
    case Nil
    with eq have "n = pre @ [a]" by simp
    then have "ends_with [a] n" by (simp add: ends_with_def)
    with assms show False by simp
  next
    case (snoc post' d)
    with eq have "n = pre @ [a, b] @ post'" by simp
    with assms show False by simp
  qed
qed

lemma str_units: "str ''ms'' = [109, 115]" "str ''s'' = [115]" "str ''m'' = [109]"
  by (simp_all add: str_def)

lemma pattern_loop_Inr:
  "pattern_loop U secs acc = Inr prs \<Longrightarrow>
     \<exists>new. prs = acc @ new
       \<and> list_all2 (\<lambda>(p, t, k) pr. pattern pr = p \<and> convert_time U t = Inr (time_sec pr)
                      \<and> py_float U k = Inr (keys_per_sec pr)) secs new"
proof (induction secs arbitrary: acc)
  case Nil
  then show ?case by simp
next
  case (Cons sec secs)
  obtain p t k where sec: "sec = (p, t, k)" by (cases sec)
  from Cons.prems sec obtain ts kps where
    ts: "convert_time U t = Inr ts" and kps: "py_float U k = Inr kps"
    and rest: "pattern_loop U secs (acc @ [\<lparr>pattern = p, time_sec = ts, keys_per_sec = kps\<rparr>]) = Inr prs"
    by (auto split: sum.splits)
  from Cons.IH[OF rest] obtain new where
    "prs = (acc @ [\<lparr>pattern = p, time_sec = ts, keys_per_sec = kps\<rparr>]) @ new"
    "list_all2 (\<lambda>(p, t, k) pr. pattern pr = p \<and> convert_time U t = Inr (time_sec pr)
                      \<and> py_float U k = Inr (keys_per_sec pr)) secs new"
    by blast
  with sec ts kps show ?case
    by (intro exI[of _ "\<lparr>pattern = p, time_sec = ts, keys_per_sec = kps\<rparr> # new"]) simp
qed

lemma parse_content_Inr:
  "parse_content U content = Inr r \<Longrightarrow>
     int_field U keys_regex content = Inr (tree_size r)
     \<and> int_field U bf_regex content = Inr (branching_factor r)
     \<and> list_all2 (\<lambda>(p, t, k) pr. pattern pr = p \<and> convert_time U t = Inr (time_sec pr)
                      \<and> py_float U k = Inr (keys_per_sec pr))
          (pattern_sections U content) (pattern_results r)"
  by (auto simp: parse_content_def split: sum.splits dest: pattern_loop_Inr)

text \<open>
  Claim C1 as stated fails: the token \<open>1ms5\<close> ends neither in \<open>ms\<close> nor in \<open>s\<close> and is
  not a number, yet the parser returns an entry for its block, with the time
  \<open>15 / 1000\<close>.
\<close>

theorem duration_suffix_counterexample:
  "pattern_sections latin1 odd_token = [(str ''a'', str ''1ms5'', str ''3'')]
   \<and> parse_content latin1 odd_token
       = Inr \<lparr>tree_size = 0, branching_factor = 0, pattern_results =
               [\<lparr>pattern = str ''a'', time_sec = 15 / 1000, keys_per_sec = 3\<rparr>]\<rparr>
   \<and> \<not> ends_with (str ''ms'') (str ''1ms5'') \<and> \<not> ends_with (str ''s'') (str ''1ms5'')
   \<and> py_float latin1 (str ''1ms5'') = Inl (ValueError (str ''1ms5''))"
proof -
  have "pattern_sections latin1 odd_token = [(str ''a'', str ''1ms5'', str ''3'')]"
    by code_simp
  moreover have "parse_content latin1 odd_token
       = Inr \<lparr>tree_size = 0, branching_factor = 0, pattern_results =
               [\<lparr>pattern = str ''a'', time_sec = 15 / 1000, keys_per_sec = 3\<rparr>]\<rparr>"
    by code_simp
  moreover have "\<not> ends_with (str ''ms'') (str ''1ms5'')" "\<not> ends_with (str ''s'') (str ''1ms5'')"
    by code_simp+
  moreover have "py_float latin1 (str ''1ms5'') = Inl (ValueError (str ''1ms5''))"
    by code_simp
  ultimately show ?thesis by simp
qed

text \<open>
  Claim C1, amended. The entries of a parsed report are the blocks found, each with the
  time that \<open>convert_time U\<close> gives for its token. A token that contains \<open>ms\<close> anywhere
  has every \<open>ms\<close> removed and the value of the rest divided by 1000; otherwise a token
  that contains \<open>s\<close> has every \<open>s\<close> removed and the value of the rest taken; otherwise
  the value of the whole token is taken. For a number followed by the suffix \<open>ms\<close>, a
  number followed by the suffix \<open>s\<close> and a bare number this is the rule of the
  specification.
\<close>

theorem duration_units:
  "(parse_content U content = Inr r \<longrightarrow>
      list_all2 (\<lambda>(p, t, k) pr. pattern pr = p \<and> convert_time U t = Inr (time_sec pr)
                      \<and> py_float U k = Inr (keys_per_sec pr))
          (pattern_sections U content) (pattern_results r))
   \<and> (str_contains (str ''ms'') tok \<longrightarrow>
        convert_time U tok =
          (case py_float U (remove_all (str ''ms'') tok) of
             Inl e \<Rightarrow> Inl e
           | Inr v \<Rightarrow> Inr (v / 1000)))
   \<and> (\<not> str_contains (str ''ms'') tok \<and> of_char CHR ''s'' \<in> set tok \<longrightarrow>
        convert_time U tok = py_float U (filter (\<lambda>c. c \<noteq> of_char CHR ''s'') tok))
   \<and> (of_char CHR ''s'' \<notin> set tok \<longrightarrow> convert_time U tok = py_float U tok)
   \<and> (\<not> str_contains (str ''ms'') n \<longrightarrow>
        convert_time U (n @ str ''ms'') =
          (case py_float U n of Inl e \<Rightarrow> Inl e | Inr v \<Rightarrow> Inr (v / 1000)))
   \<and> (of_char CHR ''s'' \<notin> set n \<and> \<not> ends_with (str ''m'') n \<longrightarrow>
        convert_time U (n @ str ''s'') = py_float U n)"
proof -
  have link: "parse_content U content = Inr r \<longrightarrow>
      list_all2 (\<lambda>(p, t, k) pr. pattern pr = p \<and> convert_time U t = Inr (time_sec pr)
                      \<and> py_float U k = Inr (keys_per_sec pr))
          (pattern_sections U content) (pattern_results r)"
    by (simp add: parse_content_Inr)
  have none: "115 \<notin> set tok \<longrightarrow> convert_time U tok = py_float U tok"
  proof
    assume s: "115 \<notin> set tok"
    then have "\<not> str_contains [115] tok" by (simp add: str_contains_char)
    moreover have "\<not> str_contains [109, 115] tok"
      using s by (auto simp: str_contains_iff)
    ultimately show "convert_time U tok = py_float U tok"
      by (simp add: convert_time_def str_units)
  qed
  have ms: "\<not> str_contains [109, 115] n \<longrightarrow>
        convert_time U (n @ [109, 115]) =
          (case py_float U n of Inl e \<Rightarrow> Inl e | Inr v \<Rightarrow> Inr (v / 1000))"
  proof
    assume no: "\<not> str_contains [109, 115] n"
    have "str_contains [109, 115] (n @ [109, 115])"
      unfolding str_contains_iff by (intro exI[of _ n] exI[of _ "[]"]) simp
    moreover have "remove_all [109, 115] (n @ [109, 115]) = n"
      using no by (intro remove_all_suffix_pair) simp_all
    ultimately show "convert_time U (n @ [109, 115]) =
          (case py_float U n of Inl e \<Rightarrow> Inl e | Inr v \<Rightarrow> Inr (v / 1000))"
      by (simp add: convert_time_def str_units)
  qed
  have sec: "115 \<notin> set n \<and> \<not> ends_with [109] n \<longrightarrow> convert_time U (n @ [115]) = py_float U n"
  proof
    assume a: "115 \<notin> set n \<and> \<not> ends_with [109] n"
    then have "\<not> str_contains [109, 115] (n @ [115])"
      by (simp add: no_pair_in_plain_suffix)
    moreover have "str_contains [115] (n @ [115])"
      by (simp add: str_contains_char)
    moreover have "filter (\<lambda>d. d \<noteq> 115) n = n"
      using a by (auto simp: filter_id_conv)
    ultimately show "convert_time U (n @ [115]) = py_float U n"
      by (simp add: convert_time_def remove_all_char str_units)
  qed
  show ?thesis
    using link none ms sec
    by (simp add: convert_time_def str_contains_char remove_all_char str_units)
qed

theorem duration_units_witness:
  "parse_content latin1 scenario_A
     = Inr \<lparr>tree_size = 7, branching_factor = 64, pattern_results =
             [\<lparr>pattern = str ''a'', time_sec = 1 / 4, keys_per_sec = 9 / 2\<rparr>]\<rparr>
   \<and> pattern_sections latin1 scenario_A = [(str ''a'', str ''250ms'', str ''4.50'')]
   \<and> convert_time latin1 (str ''250ms'') = Inr (1 / 4)
   \<and> convert_time latin1 (str ''1.5s'') = Inr (3 / 2)
   \<and> convert_time latin1 (str ''1.5'') = Inr (3 / 2)
   \<and> convert_time latin1 (str ''1ms5'') = Inr (15 / 1000)
   \<and> convert_time latin1 (str ''1s5'') = Inr 15"
proof -
  have run: "parse_content latin1 scenario_A
     = Inr \<lparr>tree_size = 7, branching_factor = 64, pattern_results =
             [\<lparr>pattern = str ''a'', time_sec = 1 / 4, keys_per_sec = 9 / 2\<rparr>]\<rparr>"
    by code_simp
  have secs: "pattern_sections latin1 scenario_A = [(str ''a'', str ''250ms'', str ''4.50'')]"
    by code_simp
  have f: "py_float latin1 (str ''250'') = Inr 250" "py_float latin1 (str ''1.5'') = Inr (3 / 2)"
    "py_float latin1 (str ''15'') = Inr 15"
    by code_simp+
  have h: "\<not> str_contains (str ''ms'') (str ''250'')" "of_char CHR ''s'' \<notin> set (str ''1.5'')"
    "\<not> ends_with (str ''m'') (str ''1.5'')" "str_contains (str ''ms'') (str ''1ms5'')"
    "remove_all (str ''ms'') (str ''1ms5'') = str ''15''"
    "\<not> str_contains (str ''ms'') (str ''1s5'')"
    "filter (\<lambda>c. c \<noteq> of_char CHR ''s'') (str ''1s5'') = str ''15''"
    "of_char CHR ''s'' \<in> set (str ''1s5'')"
    by code_simp+
  have cat: "str ''250'' @ str ''ms'' = str ''250ms''" "str ''1.5'' @ str ''s'' = str ''1.5s''"
    by (simp_all add: str_def)
  from duration_units[where U = latin1 and content = scenario_A and tok = "str ''1ms5''"
      and n = "str ''250''"] run secs f h cat
  have a: "convert_time latin1 (str ''250ms'') = Inr (1 / 4)"
    "convert_time latin1 (str ''1ms5'') = Inr (15 / 1000)"
    by simp_all
  from duration_units[where U = latin1 and content = scenario_A and tok = "str ''1.5''"
      and n = "str ''1.5''"] f h cat
  have b: "convert_time latin1 (str ''1.5s'') = Inr (3 / 2)"
    "convert_time latin1 (str ''1.5'') = Inr (3 / 2)"
    by simp_all
  from duration_units[where U = latin1 and content = scenario_A and tok = "str ''1s5''"
      and n = "str ''1.5''"] f h
  have c: "convert_time latin1 (str ''1s5'') = Inr 15"
    by simp
  from a b c run secs show ?thesis by simp
qed

subsection \<open>Errors while loading\<close>

lemma line_analysis_raises:
  "load_results U fs name vs [] [] = (tr, Inl e) \<Longrightarrow>
     line_analysis U vs name iv nothing title png fs = (tr, Inl e)"
  by (simp add: line_analysis_def)

text \<open>
  Claim C2 as stated fails: a malformed number in the first tree size report ends the run
  with the error, although the analysis by branching factor would have drawn its chart.
\<close>

theorem parsing_error_is_local_counterexample:
  "main latin1 malformed_size = ([ReadFile ''results/size_10000.txt''], Inl (ValueError (str ''1.2.3'')))
   \<and> analyze_branching_factors latin1 malformed_size
       = ([ReadFile ''results/bf_16.txt'',
           SaveFig ''results/branching_factor_performance.png''
             (LineChart ''Deletion Performance vs Branching Factor'' [])], Inr ())"
proof -
  have "main latin1 malformed_size = ([ReadFile ''results/size_10000.txt''], Inl (ValueError (str ''1.2.3'')))"
    by code_simp
  moreover have "analyze_branching_factors latin1 malformed_size
       = ([ReadFile ''results/bf_16.txt'',
           SaveFig ''results/branching_factor_performance.png''
             (LineChart ''Deletion Performance vs Branching Factor'' [])], Inr ())"
    by code_simp
  ultimately show ?thesis by simp
qed

text \<open>
  Claim C2, amended. An error raised while an analysis loads its reports is not caught: it
  leaves the analysis and \<open>main U\<close> at once. The effects of the run are those up to the
  error, the analyses after it are not entered and the completion message is not printed.
\<close>

theorem parsing_error_leaves_main:
  "fs ''results'' \<noteq> None \<longrightarrow>
     (load_results U fs size_filename sizes [] [] = (tr, Inl e) \<longrightarrow> main U fs = (tr, Inl e))
     \<and> (analyze_tree_sizes U fs = (earlier, Inr ())
          \<and> load_results U fs bf_filename factors [] [] = (tr, Inl e) \<longrightarrow>
        main U fs = (earlier @ tr, Inl e))"
  by (simp add: main_def path_exists_def analyze_tree_sizes_def analyze_branching_factors_def
      line_analysis_raises)

theorem parsing_error_leaves_main_witness:
  "malformed_size ''results'' \<noteq> None
   \<and> load_results latin1 malformed_size size_filename sizes [] []
       = ([ReadFile ''results/size_10000.txt''], Inl (ValueError (str ''1.2.3'')))
   \<and> main latin1 malformed_size = ([ReadFile ''results/size_10000.txt''], Inl (ValueError (str ''1.2.3'')))
   \<and> malformed_factor ''results'' \<noteq> None
   \<and> analyze_tree_sizes latin1 malformed_factor = ([Print ''No tree size results found.''], Inr ())
   \<and> load_results latin1 malformed_factor bf_filename factors [] []
       = ([ReadFile ''results/bf_64.txt''], Inl (ValueError (str ''1.2.3'')))
   \<and> main latin1 malformed_factor
       = ([Print ''No tree size results found.'', ReadFile ''results/bf_64.txt''],
          Inl (ValueError (str ''1.2.3'')))"
proof -
  have a: "malformed_size ''results'' \<noteq> None" "malformed_factor ''results'' \<noteq> None"
    by code_simp+
  have b: "load_results latin1 malformed_size size_filename sizes [] []
       = ([ReadFile ''results/size_10000.txt''], Inl (ValueError (str ''1.2.3'')))"
    by code_simp
  have c: "analyze_tree_sizes latin1 malformed_factor = ([Print ''No tree size results found.''], Inr ())"
    by code_simp
  have d: "load_results latin1 malformed_factor bf_filename factors [] []
       = ([ReadFile ''results/bf_64.txt''], Inl (ValueError (str ''1.2.3'')))"
    by code_simp
  from parsing_error_leaves_main[where U = latin1 and fs = malformed_size
      and tr = "[ReadFile ''results/size_10000.txt'']" and e = "ValueError (str ''1.2.3'')"] a b
  have m1: "main latin1 malformed_size = ([ReadFile ''results/size_10000.txt''], Inl (ValueError (str ''1.2.3'')))"
    by simp
  from parsing_error_leaves_main[where U = latin1 and fs = malformed_factor
      and earlier = "[Print ''No tree size results found.'']"
      and tr = "[ReadFile ''results/bf_64.txt'']" and e = "ValueError (str ''1.2.3'')"] a c d
  have m2: "main latin1 malformed_factor
       = ([Print ''No tree size results found.'', ReadFile ''results/bf_64.txt''],
          Inl (ValueError (str ''1.2.3'')))"
    by simp
  from a b c d m1 m2 show ?thesis by simp
qed

subsection \<open>The bars of the chart by pattern\<close>

lemma bars_loop_eq:
  "bars_loop prs (ps, ss) = (ps @ map pattern prs, ss @ map keys_per_sec prs)"
  by (induction prs arbitrary: ps ss) auto

lemma zip_of_maps: "zip (map f xs) (map g xs) = map (\<lambda>x. (f x, g x)) xs"
  by (induction xs) auto

lemma sorted_bars_eq:
  "sorted_bars result = sort (map (\<lambda>pr. (pattern pr, keys_per_sec pr)) (pattern_results result))"
  by (simp add: sorted_bars_def bars_loop_eq zip_of_maps)

lemma sorted_map_fst:
  fixes ps :: "(ustring \<times> rat) list"
  assumes "sorted ps"
  shows "sorted (map fst ps)"
proof -
  have "sorted_wrt (\<lambda>a b. fst a \<le> fst b) ps"
    using assms by (rule sorted_wrt_mono_rel[rotated]) (auto simp: less_eq_prod_def)
  then show ?thesis by (simp add: sorted_wrt_map)
qed

lemma bars_of_distinct_names:
  assumes "distinct (map pattern (pattern_results result))"
  shows "map fst (sorted_bars result) = sorted_list_of_set (names_of result)"
proof -
  let ?ps = "map (\<lambda>pr. (pattern pr, keys_per_sec pr)) (pattern_results result)"
  have d: "distinct (map fst ?ps)"
    using assms by (simp add: comp_def)
  have "distinct (map fst (sort ?ps)) = distinct (map fst ?ps)"
    by (simp only: distinct_map distinct_sort set_sort)
  with d have "distinct (map fst (sort ?ps))"
    by simp
  moreover have "sorted (map fst (sort ?ps))"
    by (rule sorted_map_fst) simp
  moreover have "set (map fst (sort ?ps)) = names_of result"
    by (auto simp: names_of_def image_iff)
  ultimately show ?thesis
    unfolding sorted_bars_eq
    by (metis sorted_list_of_set.idem_if_sorted_distinct)
qed

text \<open>
  Claim C3 as stated fails: a report in which the pattern \<open>a\<close> occurs twice gives two
  bars named \<open>a\<close>, while it has one distinct pattern name.
\<close>

theorem one_bar_per_pattern_counterexample:
  "parse_content latin1 twice_a = Inr twice_a_report
   \<and> map fst (sorted_bars twice_a_report) = [str ''a'', str ''a'']
   \<and> map snd (sorted_bars twice_a_report) = [5, 7]
   \<and> sorted_list_of_set (names_of twice_a_report) = [str ''a'']"
proof -
  have "parse_content latin1 twice_a = Inr twice_a_report"
    by code_simp
  moreover have "sorted_bars twice_a_report = [(str ''a'', 5), (str ''a'', 7)]"
    by code_simp
  moreover have "sorted_list_of_set (names_of twice_a_report) = [str ''a'']"
    by code_simp
  ultimately show ?thesis by simp
qed

text \<open>
  Claim C3, amended. The analysis by pattern draws one bar per entry of the report at
  \<open>results/size_1000000.txt\<close>, so a name that occurs several times has several bars. The
  bars are the entries sorted by name and, for equal names, by throughput. When the names
  of the report are distinct there is exactly one bar per name, in sorted order.
\<close>

theorem one_bar_per_entry:
  "(parse_result_file U fs largest_file = Inr result \<longrightarrow>
      analyze_patterns U fs =
        ([ReadFile largest_file,
          SaveFig ''results/pattern_performance.png''
            (BarChart (''Deletion Performance by Pattern (Tree Size: ''
                         @ py_str (tree_size result) @ '')'')
               (map fst (sorted_bars result)) (map snd (sorted_bars result)))], Inr ()))
   \<and> sorted_bars result
        = sort (map (\<lambda>pr. (pattern pr, keys_per_sec pr)) (pattern_results result))
   \<and> length (sorted_bars result) = length (pattern_results result)
   \<and> sorted (map fst (sorted_bars result))
   \<and> set (map fst (sorted_bars result)) = names_of result
   \<and> (distinct (map pattern (pattern_results result)) \<longrightarrow>
        map fst (sorted_bars result) = sorted_list_of_set (names_of result))"
proof -
  have "parse_result_file U fs largest_file = Inr result \<longrightarrow> path_exists fs largest_file"
    by (auto simp: parse_result_file_def path_exists_def split: option.splits)
  then have run: "parse_result_file U fs largest_file = Inr result \<longrightarrow>
      analyze_patterns U fs =
        ([ReadFile largest_file,
          SaveFig ''results/pattern_performance.png''
            (BarChart (''Deletion Performance by Pattern (Tree Size: ''
                         @ py_str (tree_size result) @ '')'')
               (map fst (sorted_bars result)) (map snd (sorted_bars result)))], Inr ())"
    by (auto simp: analyze_patterns_def Let_def)
  have srt: "sorted (map fst (sorted_bars result))"
    unfolding sorted_bars_eq by (rule sorted_map_fst) simp
  have st: "set (map fst (sorted_bars result)) = names_of result"
    by (auto simp: sorted_bars_eq names_of_def image_iff)
  show ?thesis
    using run srt st bars_of_distinct_names[of result]
    by (simp add: sorted_bars_eq)
qed

theorem one_bar_per_entry_witness:
  "parse_result_file latin1 b_then_a_files largest_file = Inr b_then_a
   \<and> distinct (map pattern (pattern_results b_then_a))
   \<and> sorted_list_of_set (names_of b_then_a) = [str ''a'', str ''b'']
   \<and> analyze_patterns latin1 b_then_a_files =
        ([ReadFile largest_file,
          SaveFig ''results/pattern_performance.png''
            (BarChart ''Deletion Performance by Pattern (Tree Size: 1000000)''
               [str ''a'', str ''b''] [9, 7])], Inr ())"
proof -
  have p: "parse_result_file latin1 b_then_a_files largest_file = Inr b_then_a"
    by code_simp
  have d: "distinct (map pattern (pattern_results b_then_a))"
    by code_simp
  have run: "sorted_bars b_then_a = [(str ''a'', 9), (str ''b'', 7)]"
    by code_simp
  have title: "py_str (tree_size b_then_a) = ''1000000''"
    by code_simp
  from one_bar_per_entry[of latin1 b_then_a_files b_then_a] p d run title show ?thesis
    by simp
qed

subsection \<open>The matcher and the language of an expression\<close>

lemma set_counts: "set (counts q lo hi) = {lo..hi}"
  by (cases q) auto

lemma take_in_run:
  assumes "k \<le> length (takeWhile P s)"
  shows "list_all P (take k s)"
proof -
  have "take k s = take k (takeWhile P s)"
    using assms by (metis append_eq_conv_conj takeWhile_dropWhile_id take_append take_all_iff
        diff_is_0_eq' append_Nil2 take_0 min.absorb2 take_take)
  moreover have "list_all P (takeWhile P s)"
    by (simp add: list_all_iff) (meson set_takeWhileD)
  ultimately show ?thesis
    by (metis list_all_iff in_set_takeD)
qed

lemma run_covers_prefix:
  assumes "list_all P p"
  shows "length p \<le> length (takeWhile P (p @ t))"
proof -
  have "takeWhile P (p @ t) = p @ takeWhile P t"
    using assms by (intro takeWhile_append2) (simp add: list_all_iff)
  then show ?thesis by simp
qed

lemma rmatch_iff:
  "(ps, r) \<in> set (rmatch U rx s) \<longleftrightarrow> s = concat ps @ r \<and> list_all2 (denotes U) rx ps"
proof (induction rx arbitrary: s ps)
  case Nil
  then show ?case by auto
next
  case (Cons a rx)
  show ?case
  proof (cases a)
    case (Lit l)
    show ?thesis
    proof
      assume "(ps, r) \<in> set (rmatch U (a # rx) s)"
      with Lit obtain ps' where sw: "starts_with l s" and ps: "ps = l # ps'"
        and m: "(ps', r) \<in> set (rmatch U rx (drop (length l) s))"
        by (auto split: if_splits)
      from sw obtain t where s: "s = l @ t" by (auto simp: starts_with_iff)
      with m Cons.IH have "t = concat ps' @ r" "list_all2 (denotes U) rx ps'" by auto
      with s ps Lit show "s = concat ps @ r \<and> list_all2 (denotes U) (a # rx) ps" by simp
    next
      assume a: "s = concat ps @ r \<and> list_all2 (denotes U) (a # rx) ps"
      with Lit obtain ps' where ps: "ps = l # ps'" and rest: "list_all2 (denotes U) rx ps'"
        by (auto simp: list_all2_Cons1)
      with a have s: "s = l @ concat ps' @ r" by simp
      then have "starts_with l s" by (auto simp: starts_with_iff)
      moreover from s rest Cons.IH have "(ps', r) \<in> set (rmatch U rx (drop (length l) s))"
        by simp
      ultimately show "(ps, r) \<in> set (rmatch U (a # rx) s)"
        using Lit ps by force
    qed
  next
    case (Rep c lo q)
    let ?n = "length (takeWhile (in_class U c) s)"
    show ?thesis
    proof
      assume "(ps, r) \<in> set (rmatch U (a # rx) s)"
      with Rep obtain k ps' where k: "lo \<le> k" "k \<le> ?n" and ps: "ps = take k s # ps'"
        and m: "(ps', r) \<in> set (rmatch U rx (drop k s))"
        by (auto simp: set_counts)
      from m Cons.IH have d: "drop k s = concat ps' @ r" "list_all2 (denotes U) rx ps'" by auto
      have "k \<le> length s"
        using k(2) by (meson le_trans length_takeWhile_le)
      then have "length (take k s) = k" by simp
      moreover have "list_all (in_class U c) (take k s)"
        using k(2) by (rule take_in_run)
      moreover have "s = take k s @ drop k s" by simp
      ultimately show "s = concat ps @ r \<and> list_all2 (denotes U) (a # rx) ps"
        using Rep ps d k(1) by (metis append_assoc concat.simps(2) denotes.simps(2) list_all2_Cons)
    next
      assume a: "s = concat ps @ r \<and> list_all2 (denotes U) (a # rx) ps"
      with Rep obtain p ps' where ps: "ps = p # ps'" and p: "lo \<le> length p"
        "list_all (in_class U c) p" and rest: "list_all2 (denotes U) rx ps'"
        by (auto simp: list_all2_Cons1)
      with a have s: "s = p @ concat ps' @ r" by simp
      from p(2) have "length p \<le> ?n" unfolding s by (rule run_covers_prefix)
      with p(1) have "length p \<in> set (counts q lo ?n)" by (simp add: set_counts)
      moreover from s rest Cons.IH have "(ps', r) \<in> set (rmatch U rx (drop (length p) s))"
        by simp
      moreover from s have "take (length p) s = p" by simp
      ultimately show "(ps, r) \<in> set (rmatch U (a # rx) s)"
        using Rep ps by force
    qed
  qed
qed

lemma found_at_Nil: "found_at U rx [] \<longleftrightarrow> rmatch U rx [] \<noteq> []"
  by (simp add: found_at_def)

lemma found_at_Cons: "found_at U rx (c # cs) \<longleftrightarrow> rmatch U rx (c # cs) \<noteq> [] \<or> found_at U rx cs"
proof
  assume "found_at U rx (c # cs)"
  then obtain i where i: "i \<le> length (c # cs)" "rmatch U rx (drop i (c # cs)) \<noteq> []"
    by (auto simp: found_at_def)
  show "rmatch U rx (c # cs) \<noteq> [] \<or> found_at U rx cs"
  proof (cases i)
    case 0
    with i show ?thesis by simp
  next
    case (Suc j)
    with i have "j \<le> length cs" "rmatch U rx (drop j cs) \<noteq> []" by auto
    then show ?thesis by (auto simp: found_at_def)
  qed
next
  assume "rmatch U rx (c # cs) \<noteq> [] \<or> found_at U rx cs"
  then show "found_at U rx (c # cs)"
  proof
    assume "rmatch U rx (c # cs) \<noteq> []"
    then have "rmatch U rx (drop 0 (c # cs)) \<noteq> []" by simp
    then show ?thesis unfolding found_at_def by blast
  next
    assume "found_at U rx cs"
    then obtain i where "i \<le> length cs" "rmatch U rx (drop i cs) \<noteq> []"
      by (auto simp: found_at_def)
    then have "Suc i \<le> length (c # cs)" "rmatch U rx (drop (Suc i) (c # cs)) \<noteq> []" by auto
    then show ?thesis unfolding found_at_def by blast
  qed
qed

lemma match_here_None: "match_here U rx s = None \<longleftrightarrow> rmatch U rx s = []"
  by (simp add: match_here_def split: list.splits)

lemma match_here_Some: "match_here U rx s = Some m \<longleftrightarrow> (\<exists>ms. rmatch U rx s = m # ms)"
  by (simp add: match_here_def split: list.splits)

lemma re_search_None: "re_search U rx s = None \<longleftrightarrow> \<not> found_at U rx s"
  by (induction s)
     (auto simp: found_at_Nil found_at_Cons match_here_None match_here_Some split: option.splits)

lemma re_findall_Nil: "re_findall U rx s = [] \<longleftrightarrow> \<not> found_at U rx s"
proof (induction s)
  case Nil
  show ?case
    by (subst re_findall.simps)
       (auto simp: found_at_Nil match_here_None match_here_Some split: option.splits)
next
  case (Cons c cs)
  show ?case
    by (subst re_findall.simps)
       (auto simp: found_at_Cons match_here_None match_here_Some Cons.IH split: option.splits)
qed

lemma found_at_iff: "found_at U rx s \<longleftrightarrow> marker_present U rx s"
proof
  assume "found_at U rx s"
  then obtain i where "rmatch U rx (drop i s) \<noteq> []" by (auto simp: found_at_def)
  then obtain ps r where "(ps, r) \<in> set (rmatch U rx (drop i s))"
    by (cases "rmatch U rx (drop i s)") auto
  then have "drop i s = concat ps @ r" "list_all2 (denotes U) rx ps" by (auto simp: rmatch_iff)
  then have "s = take i s @ concat ps @ r \<and> list_all2 (denotes U) rx ps"
    by (metis append_take_drop_id)
  then show "marker_present U rx s" unfolding marker_present_def by blast
next
  assume "marker_present U rx s"
  then obtain pre ps post where s: "s = pre @ concat ps @ post" and ok: "list_all2 (denotes U) rx ps"
    by (auto simp: marker_present_def)
  then have "(ps, post) \<in> set (rmatch U rx (drop (length pre) s))" by (simp add: rmatch_iff)
  then have "rmatch U rx (drop (length pre) s) \<noteq> []" by auto
  moreover have "length pre \<le> length s" using s by simp
  ultimately show "found_at U rx s" unfolding found_at_def by blast
qed

lemma marker_present_code: "marker_present U rx s \<longleftrightarrow> re_findall U rx s \<noteq> []"
  by (simp add: re_findall_Nil found_at_iff)

subsection \<open>The first match at a position\<close>

lemma re_search_here: "match_here U rx s = Some (ps, r) \<Longrightarrow> re_search U rx s = Some ps"
  by (cases s) simp_all

lemma first_after_literal:
  assumes "match_here U rx t = Some (ps, r)"
  shows "match_here U (Lit l # rx) (l @ t) = Some (l # ps, r)"
proof -
  from assms obtain ms where ms: "rmatch U rx t = (ps, r) # ms"
    by (auto simp: match_here_Some)
  have "starts_with l (l @ t)" by (simp add: starts_with_iff)
  then have "rmatch U (Lit l # rx) (l @ t) = map (\<lambda>(ps, r). (l # ps, r)) (rmatch U rx t)"
    by simp
  with ms show ?thesis by (simp add: match_here_Some)
qed

lemma first_after_greedy:
  assumes run: "list_all (in_class U c) p" and lo: "lo \<le> length p"
    and stop: "t = [] \<or> \<not> in_class U c (hd t)"
    and rest: "match_here U rx t = Some (ps, r)"
  shows "match_here U (Rep c lo Greedy # rx) (p @ t) = Some (p # ps, r)"
proof -
  let ?f = "\<lambda>k. map (\<lambda>(ps, r). (take k (p @ t) # ps, r)) (rmatch U rx (drop k (p @ t)))"
  from rest obtain ms where ms: "rmatch U rx t = (ps, r) # ms"
    by (auto simp: match_here_Some)
  from stop have t: "takeWhile (in_class U c) t = []" by (cases t) auto
  have "takeWhile (in_class U c) (p @ t) = p @ takeWhile (in_class U c) t"
    using run by (intro takeWhile_append2) (simp add: list_all_iff)
  with t have n: "length (takeWhile (in_class U c) (p @ t)) = length p" by simp
  have "counts Greedy lo (length p) = length p # rev [lo..<length p]"
    using lo by simp
  then have "rmatch U (Rep c lo Greedy # rx) (p @ t)
               = ?f (length p) @ concat (map ?f (rev [lo..<length p]))"
    by (simp only: rmatch.simps n list.map concat.simps)
  moreover have "?f (length p) = (p # ps, r) # map (\<lambda>(ps, r). (p # ps, r)) ms"
    using ms by simp
  ultimately show ?thesis by (simp add: match_here_Some)
qed

lemma run_of_any: "takeWhile (in_class U AnyChar) s = s"
  by (induction s) auto

lemma first_of_concat:
  assumes "\<And>x. x \<in> set xs \<Longrightarrow> f x = []" and "f y = m # ms"
  shows "\<exists>ms'. concat (map f (xs @ y # ys)) = m # ms'"
proof -
  have c: "concat (map f xs) = []" using assms(1) by simp
  have "concat (map f (xs @ y # ys)) = m # (ms @ concat (map f ys))"
    by (simp add: c assms(2))
  then show ?thesis by blast
qed

lemma first_after_lazy:
  assumes gap: "\<And>j. j < length g \<Longrightarrow> rmatch U rx (drop j (g @ t)) = []"
    and rest: "match_here U rx t = Some (ps, r)"
  shows "match_here U (Rep AnyChar 0 Lazy # rx) (g @ t) = Some (g # ps, r)"
proof -
  define f where
    "f = (\<lambda>k. map (\<lambda>(ps, r). (take k (g @ t) # ps, r)) (rmatch U rx (drop k (g @ t))))"
  from rest obtain ms where ms: "rmatch U rx t = (ps, r) # ms"
    by (auto simp: match_here_Some)
  have "[0..<length g + Suc (length t)] = [0..<length g] @ [length g..<length g + Suc (length t)]"
    by (rule upt_add_eq_append) simp
  moreover have "[length g..<length g + Suc (length t)]
                   = length g # [Suc (length g)..<length g + Suc (length t)]"
    by (rule upt_conv_Cons) simp
  ultimately have split: "[0..<Suc (length (g @ t))]
      = [0..<length g] @ length g # [Suc (length g)..<length g + Suc (length t)]"
    by (simp del: upt_Suc)
  have whole: "rmatch U (Rep AnyChar 0 Lazy # rx) (g @ t) = concat (map f [0..<Suc (length (g @ t))])"
    unfolding f_def by (simp only: rmatch.simps counts.simps run_of_any)
  have before: "f j = []" if "j \<in> set [0..<length g]" for j
    using that gap[of j] by (simp add: f_def)
  have at: "f (length g) = (g # ps, r) # map (\<lambda>(ps, r). (g # ps, r)) ms"
    using ms by (simp add: f_def)
  from first_of_concat[of "[0..<length g]" f, OF before at]
  obtain ms' where "concat (map f ([0..<length g] @ length g
      # [Suc (length g)..<length g + Suc (length t)])) = (g # ps, r) # ms'"
    by blast
  with whole split show ?thesis
    by (simp only: match_here_Some) blast
qed

text \<open>A text that holds a marker holds every character of the literal the expression
  begins with.\<close>

lemma marker_holds_literal:
  assumes "marker_present U (Lit l # rx) s"
  shows "set l \<subseteq> set s"
proof -
  from assms obtain pre ps post where s: "s = pre @ concat ps @ post"
    and ok: "list_all2 (denotes U) (Lit l # rx) ps"
    by (auto simp: marker_present_def)
  from ok obtain ps' where "ps = l # ps'" by (auto simp: list_all2_Cons1)
  with s show ?thesis by auto
qed

subsection \<open>Missing fields\<close>

lemma pattern_loop_Inl:
  "pattern_loop U secs acc = Inl e \<Longrightarrow>
     \<exists>(p, t, k) \<in> set secs. convert_time U t = Inl e \<or> py_float U k = Inl e"
proof (induction secs arbitrary: acc)
  case Nil
  then show ?case by simp
next
  case (Cons sec secs)
  obtain p t k where sec: "sec = (p, t, k)" by (cases sec)
  show ?case
  proof (cases "convert_time U t")
    case (Inl e')
    with Cons.prems sec show ?thesis by auto
  next
    case ct: (Inr ts)
    show ?thesis
    proof (cases "py_float U k")
      case (Inl e')
      with Cons.prems sec ct show ?thesis by auto
    next
      case (Inr kps)
      with Cons.prems sec ct have
        "pattern_loop U secs (acc @ [\<lparr>pattern = p, time_sec = ts, keys_per_sec = kps\<rparr>]) = Inl e"
        by simp
      from Cons.IH[OF this] show ?thesis by auto
    qed
  qed
qed

lemma int_field_absent:
  assumes "\<not> marker_present U rx content"
  shows "int_field U rx content = Inr 0"
proof -
  from assms have "re_search U rx content = None" by (simp add: re_search_None found_at_iff)
  then show ?thesis by (simp add: int_field_def)
qed

lemma int_field_Inl:
  assumes "int_field U rx content = Inl e"
  shows "marker_present U rx content
         \<and> (\<exists>ps. re_search U rx content = Some ps
                \<and> int_max_str_digits < int (length (ps ! 1)) \<and> e = ValueError (ps ! 1))"
proof (cases "re_search U rx content")
  case None
  with assms show ?thesis by (simp add: int_field_def)
next
  case (Some ps)
  then have "re_search U rx content \<noteq> None" by simp
  then have present: "marker_present U rx content"
    by (simp add: re_search_None found_at_iff)
  from assms Some have "py_int U (ps ! 1) = Inl e" by (simp add: int_field_def)
  then have "int_max_str_digits < int (length (ps ! 1)) \<and> e = ValueError (ps ! 1)"
    by (auto simp: py_int_def split: if_splits)
  with present Some show ?thesis by simp
qed

lemma entries_absent:
  assumes "\<not> marker_present U section_regex content"
  shows "entries U content = Inr []"
proof -
  from assms have "pattern_sections U content = []"
    by (simp add: pattern_sections_def re_findall_Nil found_at_iff)
  then show ?thesis by (simp add: entries_def)
qed

lemma entries_Inl:
  assumes "entries U content = Inl e"
  shows "marker_present U section_regex content
         \<and> (\<exists>(p, t, k) \<in> set (pattern_sections U content).
               convert_time U t = Inl e \<or> py_float U k = Inl e)"
proof -
  from assms have "pattern_loop U (pattern_sections U content) [] = Inl e"
    by (simp add: entries_def)
  from pattern_loop_Inl[OF this] have ex: "\<exists>(p, t, k) \<in> set (pattern_sections U content).
              convert_time U t = Inl e \<or> py_float U k = Inl e" .
  have "marker_present U section_regex content"
  proof (rule ccontr)
    assume "\<not> marker_present U section_regex content"
    from entries_absent[OF this] assms show False by simp
  qed
  with ex show ?thesis by simp
qed

text \<open>The parser returns when the two integers and the entries are there, and raises the
  first error among them otherwise.\<close>

lemma parse_content_returns:
  "parse_content U content = Inr r \<longleftrightarrow>
     int_field U keys_regex content = Inr (tree_size r)
     \<and> int_field U bf_regex content = Inr (branching_factor r)
     \<and> entries U content = Inr (pattern_results r)"
  by (cases r) (auto simp: parse_content_def entries_def split: sum.splits)

lemma parse_content_raises:
  "parse_content U content = Inl e \<Longrightarrow>
     int_field U keys_regex content = Inl e \<or> int_field U bf_regex content = Inl e
     \<or> entries U content = Inl e"
  by (auto simp: parse_content_def entries_def split: sum.splits)

text \<open>The text \<open>long_keys\<close>: the expression of the tree size matches at its beginning, up
  to its end.\<close>

lemma search_long_keys:
  "re_search latin1 keys_regex long_keys = Some [str ''Keys: '', replicate 4301 49]"
proof -
  have "list_all (in_class latin1 Digit) (replicate 4301 49)"
    by (simp add: list_all_iff is_digit_def is_ascii_def)
  moreover have "1 \<le> length (replicate 4301 (49 :: int))" by simp
  moreover have "match_here latin1 [] [] = Some ([], [])" by (simp add: match_here_def)
  ultimately have "match_here latin1 (Rep Digit 1 Greedy # []) (replicate 4301 49 @ [])
      = Some (replicate 4301 49 # [], [])"
    by (intro first_after_greedy) simp_all
  then have "match_here latin1 (Lit (str ''Keys: '') # Rep Digit 1 Greedy # [])
      (str ''Keys: '' @ replicate 4301 49 @ []) = Some (str ''Keys: '' # replicate 4301 49 # [], [])"
    by (rule first_after_literal)
  then have "match_here latin1 keys_regex long_keys
      = Some ([str ''Keys: '', replicate 4301 49], [])"
    by (simp add: keys_regex_def long_keys_def)
  then show ?thesis by (rule re_search_here)
qed

lemma parse_long_keys:
  "parse_content latin1 long_keys = Inl (ValueError (replicate 4301 49))"
proof -
  have "int_field latin1 keys_regex long_keys = Inl (ValueError (replicate 4301 49))"
    by (simp add: int_field_def search_long_keys py_int_def int_max_str_digits_def)
  then show ?thesis by (simp add: parse_content_def)
qed

lemma set_long_keys: "set long_keys = {75, 101, 121, 115, 58, 32, 49}"
  by (simp add: long_keys_def str_def)

text \<open>
  Claim C6 as stated fails: the text \<open>long_keys\<close> holds neither a
  \<open>Branching Factor: <integer>\<close> marker nor a block, yet the parser returns no report with
  the branching factor 0 and the empty list of entries. It raises the \<open>ValueError\<close> of
  \<open>int()\<close> on the 4301 digits of the tree size.
\<close>

theorem missing_fields_counterexample:
  "\<not> marker_present latin1 bf_regex long_keys
   \<and> \<not> marker_present latin1 section_regex long_keys
   \<and> parse_content latin1 long_keys = Inl (ValueError (replicate 4301 49))"
proof -
  have "\<not> marker_present latin1 bf_regex long_keys"
  proof
    assume "marker_present latin1 bf_regex long_keys"
    then have "set (str ''Branching Factor: '') \<subseteq> set long_keys"
      unfolding bf_regex_def by (rule marker_holds_literal)
    then show False by (simp add: set_long_keys str_def)
  qed
  moreover have "\<not> marker_present latin1 section_regex long_keys"
  proof
    assume "marker_present latin1 section_regex long_keys"
    then have "set (str ''Running deletion test with pattern: '') \<subseteq> set long_keys"
      unfolding section_regex_def by (rule marker_holds_literal)
    then show False by (simp add: set_long_keys str_def)
  qed
  ultimately show ?thesis by (simp add: parse_long_keys)
qed

text \<open>
  Claim C6, amended. Without a \<open>Keys: <integer>\<close> marker the tree size read is 0, without
  a \<open>Branching Factor: <integer>\<close> marker the branching factor read is 0, and without a
  block the list of entries built is empty and no error comes from it. The parser returns
  a report exactly when both integers are read and the entries are built, and the report
  holds them: a report it returns has the tree size 0, the branching factor 0 and no entry
  where the marker or the blocks are missing, and it returns the report \<open>(0, 0, [])\<close> when
  nothing is present. It fails only
  on something present: by \<open>int()\<close> on the integer of a marker that is present and has more
  than 4300 digits, or by the conversion of a number of a block that is present.
\<close>

theorem missing_fields_default:
  "(\<not> marker_present U keys_regex content \<longrightarrow> int_field U keys_regex content = Inr 0)
   \<and> (\<not> marker_present U bf_regex content \<longrightarrow> int_field U bf_regex content = Inr 0)
   \<and> (\<not> marker_present U section_regex content \<longrightarrow> entries U content = Inr [])
   \<and> (parse_content U content = Inr r \<longleftrightarrow>
        int_field U keys_regex content = Inr (tree_size r)
        \<and> int_field U bf_regex content = Inr (branching_factor r)
        \<and> entries U content = Inr (pattern_results r))
   \<and> (parse_content U content = Inr r \<longrightarrow>
        (\<not> marker_present U keys_regex content \<longrightarrow> tree_size r = 0)
        \<and> (\<not> marker_present U bf_regex content \<longrightarrow> branching_factor r = 0)
        \<and> (\<not> marker_present U section_regex content \<longrightarrow> pattern_results r = []))
   \<and> (\<not> marker_present U keys_regex content \<and> \<not> marker_present U bf_regex content
        \<and> \<not> marker_present U section_regex content \<longrightarrow>
        parse_content U content
          = Inr \<lparr>tree_size = 0, branching_factor = 0, pattern_results = []\<rparr>)
   \<and> (parse_content U content = Inl e \<longrightarrow>
        int_field U keys_regex content = Inl e \<or> int_field U bf_regex content = Inl e
        \<or> entries U content = Inl e)
   \<and> (int_field U rx content = Inl e \<longrightarrow>
        marker_present U rx content
        \<and> (\<exists>ps. re_search U rx content = Some ps
               \<and> int_max_str_digits < int (length (ps ! 1)) \<and> e = ValueError (ps ! 1)))
   \<and> (entries U content = Inl e \<longrightarrow>
        marker_present U section_regex content
        \<and> (\<exists>(p, t, k) \<in> set (pattern_sections U content).
              convert_time U t = Inl e \<or> py_float U k = Inl e))"
proof -
  have keys: "\<not> marker_present U keys_regex content \<longrightarrow> int_field U keys_regex content = Inr 0"
    by (simp add: int_field_absent)
  have bf: "\<not> marker_present U bf_regex content \<longrightarrow> int_field U bf_regex content = Inr 0"
    by (simp add: int_field_absent)
  have none: "\<not> marker_present U section_regex content \<longrightarrow> entries U content = Inr []"
    by (simp add: entries_absent)
  have ret: "parse_content U content = Inr r \<longleftrightarrow>
        int_field U keys_regex content = Inr (tree_size r)
        \<and> int_field U bf_regex content = Inr (branching_factor r)
        \<and> entries U content = Inr (pattern_results r)"
    by (rule parse_content_returns)
  have fields: "parse_content U content = Inr r \<longrightarrow>
        (\<not> marker_present U keys_regex content \<longrightarrow> tree_size r = 0)
        \<and> (\<not> marker_present U bf_regex content \<longrightarrow> branching_factor r = 0)
        \<and> (\<not> marker_present U section_regex content \<longrightarrow> pattern_results r = [])"
  proof (intro impI conjI)
    assume p: "parse_content U content = Inr r"
    {
      assume "\<not> marker_present U keys_regex content"
      from int_field_absent[OF this] p show "tree_size r = 0"
        by (simp add: parse_content_returns)
    }
    {
      assume "\<not> marker_present U bf_regex content"
      from int_field_absent[OF this] p show "branching_factor r = 0"
        by (simp add: parse_content_returns)
    }
    {
      assume "\<not> marker_present U section_regex content"
      from entries_absent[OF this] p show "pattern_results r = []"
        by (simp add: parse_content_returns)
    }
  qed
  have all_absent: "\<not> marker_present U keys_regex content \<and> \<not> marker_present U bf_regex content
        \<and> \<not> marker_present U section_regex content \<longrightarrow>
        parse_content U content
          = Inr \<lparr>tree_size = 0, branching_factor = 0, pattern_results = []\<rparr>"
    by (simp add: parse_content_returns int_field_absent entries_absent)
  have err: "parse_content U content = Inl e \<longrightarrow>
        int_field U keys_regex content = Inl e \<or> int_field U bf_regex content = Inl e
        \<or> entries U content = Inl e"
    by (blast dest: parse_content_raises)
  have int_err: "int_field U rx content = Inl e \<longrightarrow>
        marker_present U rx content
        \<and> (\<exists>ps. re_search U rx content = Some ps
               \<and> int_max_str_digits < int (length (ps ! 1)) \<and> e = ValueError (ps ! 1))"
    by (blast dest: int_field_Inl)
  have block_err: "entries U content = Inl e \<longrightarrow>
        marker_present U section_regex content
        \<and> (\<exists>(p, t, k) \<in> set (pattern_sections U content).
              convert_time U t = Inl e \<or> py_float U k = Inl e)"
    by (blast dest: entries_Inl)
  show ?thesis
    by (intro conjI) (rule keys bf none ret fields all_absent err int_err block_err)+
qed

theorem missing_fields_default_witness:
  "\<not> marker_present latin1 keys_regex no_fields \<and> \<not> marker_present latin1 bf_regex no_fields
   \<and> \<not> marker_present latin1 section_regex no_fields
   \<and> int_field latin1 keys_regex no_fields = Inr 0
   \<and> int_field latin1 bf_regex no_fields = Inr 0
   \<and> entries latin1 no_fields = Inr []
   \<and> parse_content latin1 no_fields
       = Inr \<lparr>tree_size = 0, branching_factor = 0, pattern_results = []\<rparr>
   \<and> parse_content latin1 malformed = Inl (ValueError (str ''1.2.3''))
   \<and> marker_present latin1 section_regex malformed
   \<and> entries latin1 malformed = Inl (ValueError (str ''1.2.3''))"
proof -
  have "re_findall latin1 keys_regex no_fields = []" "re_findall latin1 bf_regex no_fields = []"
    "re_findall latin1 section_regex no_fields = []"
    by code_simp+
  then have a: "\<not> marker_present latin1 keys_regex no_fields"
    "\<not> marker_present latin1 bf_regex no_fields"
    "\<not> marker_present latin1 section_regex no_fields"
    by (simp_all add: marker_present_code)
  have b: "parse_content latin1 malformed = Inl (ValueError (str ''1.2.3''))"
    by code_simp
  have c: "int_field latin1 keys_regex malformed = Inr 0"
    "int_field latin1 bf_regex malformed = Inr 0"
    by code_simp+
  from missing_fields_default[of latin1 no_fields _ _ keys_regex] a
  have d: "int_field latin1 keys_regex no_fields = Inr 0"
    "int_field latin1 bf_regex no_fields = Inr 0" "entries latin1 no_fields = Inr []"
    "parse_content latin1 no_fields
       = Inr \<lparr>tree_size = 0, branching_factor = 0, pattern_results = []\<rparr>"
    by blast+
  from missing_fields_default[of latin1 malformed _ "ValueError (str ''1.2.3'')" keys_regex] b c
  have e: "entries latin1 malformed = Inl (ValueError (str ''1.2.3''))" by simp
  with missing_fields_default[of latin1 malformed _ "ValueError (str ''1.2.3'')" keys_regex]
  have "marker_present latin1 section_regex malformed" by blast
  with a b d e show ?thesis by simp
qed

subsection \<open>Matches that do not reach the end of the text\<close>

lemma rmatch_length: "(ps, r) \<in> set (rmatch U rx s) \<Longrightarrow> length s = length (concat ps) + length r"
  by (simp add: rmatch_iff)

lemma concat_map_filter:
  "(\<And>x. x \<in> set xs \<Longrightarrow> \<not> P x \<Longrightarrow> f x = []) \<Longrightarrow>
     concat (map f xs) = concat (map f (filter P xs))"
  by (induction xs) auto

lemma filter_counts:
  assumes "n \<le> n'"
  shows "filter (\<lambda>k. k \<le> n) (counts q lo n') = counts q lo n"
proof -
  have "filter (\<lambda>k. k \<le> n) [lo..<Suc n'] = [lo..<Suc n]"
  proof (rule sorted_distinct_set_unique)
    show "sorted (filter (\<lambda>k. k \<le> n) [lo..<Suc n'])"
      by (rule sorted_wrt_filter) (simp del: upt_Suc)
    show "set (filter (\<lambda>k. k \<le> n) [lo..<Suc n']) = set [lo..<Suc n]"
      using assms by (auto simp del: upt_Suc)
  qed (simp_all del: upt_Suc)
  then show ?thesis by (cases q) (simp_all del: upt_Suc flip: rev_filter)
qed

lemma run_grows: "length (takeWhile P u) \<le> length (takeWhile P (u @ d))"
  by (induction u) auto

lemma run_beyond:
  "length (takeWhile P u) < length (takeWhile P (u @ d)) \<Longrightarrow> length (takeWhile P u) = length u"
  by (induction u) (auto split: if_splits)

lemma rmatch_append:
  assumes "\<And>ps r. (ps, r) \<in> set (rmatch U rx (u @ d)) \<Longrightarrow> length d \<le> length r"
  shows "rmatch U rx (u @ d) = map (\<lambda>(ps, r). (ps, r @ d)) (rmatch U rx u)"
  using assms
proof (induction rx arbitrary: u)
  case Nil
  then show ?case by simp
next
  case (Cons a rx)
  show ?case
  proof (cases a)
    case (Lit l)
    show ?thesis
    proof (cases "starts_with l (u @ d)")
      case False
      then have "\<not> starts_with l u" by (auto simp: starts_with_iff)
      with False Lit show ?thesis by simp
    next
      case True
      then obtain t where t: "u @ d = l @ t" by (auto simp: starts_with_iff)
      show ?thesis
      proof (cases "length l \<le> length u")
        case le: True
        with t obtain us where u: "u = l @ us"
          by (auto simp: append_eq_append_conv2)
        have "rmatch U rx (us @ d) = map (\<lambda>(ps, r). (ps, r @ d)) (rmatch U rx us)"
        proof (rule Cons.IH)
          fix ps r
          assume "(ps, r) \<in> set (rmatch U rx (us @ d))"
          then have "(l # ps, r) \<in> set (rmatch U (a # rx) (u @ d))"
            using Lit u by (force simp: starts_with_iff)
          then show "length d \<le> length r" by (rule Cons.prems)
        qed
        then show ?thesis
          using Lit u by (simp add: starts_with_iff case_prod_unfold)
      next
        case gt: False
        then have nu: "\<not> starts_with l u" by (auto simp: starts_with_iff)
        have "rmatch U rx (drop (length l) (u @ d)) = []"
        proof (rule ccontr)
          assume "rmatch U rx (drop (length l) (u @ d)) \<noteq> []"
          then obtain ps r where m: "(ps, r) \<in> set (rmatch U rx (drop (length l) (u @ d)))"
            by (cases "rmatch U rx (drop (length l) (u @ d))") auto
          then have "(l # ps, r) \<in> set (rmatch U (a # rx) (u @ d))"
            using Lit True by force
          then have "length d \<le> length r" by (rule Cons.prems)
          moreover from rmatch_length[OF m] have "length r \<le> length (drop (length l) (u @ d))"
            by simp
          moreover have "length u + length d = length l + length t"
            using t by (metis length_append)
          then have "length (drop (length l) (u @ d)) < length d"
            using gt by simp
          ultimately show False by simp
        qed
        with Lit nu show ?thesis by simp
      qed
    qed
  next
    case (Rep c lo q)
    let ?P = "in_class U c"
    let ?n' = "length (takeWhile ?P (u @ d))"
    let ?n = "length (takeWhile ?P u)"
    let ?f' = "\<lambda>k. map (\<lambda>(ps, r). (take k (u @ d) # ps, r)) (rmatch U rx (drop k (u @ d)))"
    let ?f = "\<lambda>k. map (\<lambda>(ps, r). (take k u # ps, r)) (rmatch U rx (drop k u))"
    let ?ext = "\<lambda>(ps, r). (ps, r @ d)"
    have le: "?n \<le> ?n'" by (rule run_grows)
    have member: "(take k (u @ d) # ps, r) \<in> set (rmatch U (a # rx) (u @ d))"
      if "k \<in> set (counts q lo ?n')" "(ps, r) \<in> set (rmatch U rx (drop k (u @ d)))" for k ps r
      using that Rep by force
    have beyond: "?f' k = []" if k: "k \<in> set (counts q lo ?n')" and big: "\<not> k \<le> ?n" for k
    proof -
      from k big have "?n < ?n'" by (simp add: set_counts)
      then have "?n = length u" by (rule run_beyond)
      with big have ku: "length u < k" by simp
      have "rmatch U rx (drop k (u @ d)) = []"
      proof (rule ccontr)
        assume "rmatch U rx (drop k (u @ d)) \<noteq> []"
        then obtain ps r where m: "(ps, r) \<in> set (rmatch U rx (drop k (u @ d)))"
          by (cases "rmatch U rx (drop k (u @ d))") auto
        from member[OF k m] have "length d \<le> length r" by (rule Cons.prems)
        moreover from rmatch_length[OF m] have "length r \<le> length (drop k (u @ d))" by simp
        moreover have "length (takeWhile ?P (u @ d)) \<le> length (u @ d)"
          by (rule length_takeWhile_le)
        with k have "k \<le> length (u @ d)"
          by (simp add: set_counts)
        ultimately show False using ku by auto
      qed
      then show ?thesis by simp
    qed
    have within: "?f' k = map ?ext (?f k)" if k: "k \<in> set (counts q lo ?n)" for k
    proof -
      from k have kn: "lo \<le> k" "k \<le> ?n" by (simp_all add: set_counts)
      then have ku: "k \<le> length u" by (meson le_trans length_takeWhile_le)
      from kn le have k': "k \<in> set (counts q lo ?n')" by (simp add: set_counts)
      have "rmatch U rx (drop k u @ d) = map ?ext (rmatch U rx (drop k u))"
      proof (rule Cons.IH)
        fix ps r
        assume "(ps, r) \<in> set (rmatch U rx (drop k u @ d))"
        with ku have "(ps, r) \<in> set (rmatch U rx (drop k (u @ d)))" by simp
        from member[OF k' this] show "length d \<le> length r" by (rule Cons.prems)
      qed
      with ku show ?thesis by (simp add: case_prod_unfold)
    qed
    have "rmatch U (a # rx) (u @ d) = concat (map ?f' (counts q lo ?n'))"
      using Rep by simp
    also have "\<dots> = concat (map ?f' (filter (\<lambda>k. k \<le> ?n) (counts q lo ?n')))"
      by (rule concat_map_filter) (rule beyond)
    also have "\<dots> = concat (map ?f' (counts q lo ?n))"
      by (simp only: filter_counts[OF le])
    also have "\<dots> = concat (map (\<lambda>k. map ?ext (?f k)) (counts q lo ?n))"
      by (intro arg_cong[where f = concat] map_cong refl within)
    also have "\<dots> = map ?ext (concat (map ?f (counts q lo ?n)))"
      by (simp add: map_concat comp_def)
    also have "\<dots> = map ?ext (rmatch U (a # rx) u)"
      using Rep by simp
    finally show ?thesis .
  qed
qed

subsection \<open>Start markers without a completion line\<close>

lemma section_regex_split:
  "section_regex =
     [Lit start_marker, Rep Word 1 Greedy, Rep AnyChar 0 Lazy] @ completion_regex"
  by (simp add: section_regex_def start_marker_def completion_regex_def)

lemma rmatch_of_suffix:
  assumes "(ps, r) \<in> set (rmatch U (rx1 @ rx2) s)"
  shows "\<exists>ps2 j. (ps2, r) \<in> set (rmatch U rx2 (drop j s))"
proof -
  from assms have s: "s = concat ps @ r" and ok: "list_all2 (denotes U) (rx1 @ rx2) ps"
    by (simp_all add: rmatch_iff)
  from ok obtain ps1 ps2 where ps: "ps = ps1 @ ps2" and ok2: "list_all2 (denotes U) rx2 ps2"
    by (auto simp: list_all2_append1)
  from s ps have "drop (length (concat ps1)) s = concat ps2 @ r" by simp
  with ok2 have "(ps2, r) \<in> set (rmatch U rx2 (drop (length (concat ps1)) s))"
    by (simp add: rmatch_iff)
  then show ?thesis by blast
qed

lemma section_match_shrinks:
  assumes "(ps, r) \<in> set (rmatch U section_regex s)"
  shows "length r < length s"
proof -
  from assms have s: "s = concat ps @ r" and ok: "list_all2 (denotes U) section_regex ps"
    by (simp_all add: rmatch_iff)
  from ok obtain ps' where "ps = start_marker # ps'"
    by (auto simp: section_regex_split list_all2_Cons1)
  moreover have "start_marker \<noteq> []" by (simp add: start_marker_def str_def)
  ultimately show ?thesis using s by simp
qed

lemma re_findall_append:
  assumes reach: "\<And>i ps r. (ps, r) \<in> set (rmatch U rx (drop i (u @ d))) \<Longrightarrow> length d \<le> length r"
    and shrink: "\<And>s ps r. (ps, r) \<in> set (rmatch U rx s) \<Longrightarrow> length r < length s"
  shows "re_findall U rx (u @ d) = re_findall U rx u"
  using reach
proof (induction u rule: length_induct)
  case (1 u)
  have here: "rmatch U rx (u @ d) = map (\<lambda>(ps, r). (ps, r @ d)) (rmatch U rx u)"
  proof (rule rmatch_append)
    fix ps r
    assume "(ps, r) \<in> set (rmatch U rx (u @ d))"
    then have "(ps, r) \<in> set (rmatch U rx (drop 0 (u @ d)))" by simp
    then show "length d \<le> length r" by (rule "1.prems")
  qed
  show ?case
  proof (cases "rmatch U rx u")
    case Nil
    with here have none: "match_here U rx (u @ d) = None" "match_here U rx u = None"
      by (simp_all add: match_here_None)
    show ?thesis
    proof (cases u)
      case u: Nil
      have "\<not> found_at U rx d"
      proof
        assume "found_at U rx d"
        then obtain i where "rmatch U rx (drop i d) \<noteq> []" by (auto simp: found_at_def)
        then obtain ps r where m: "(ps, r) \<in> set (rmatch U rx (drop i d))"
          by (cases "rmatch U rx (drop i d)") auto
        then have "(ps, r) \<in> set (rmatch U rx (drop i (u @ d)))" using u by simp
        then have "length d \<le> length r" by (rule "1.prems")
        moreover from shrink[OF m] have "length r < length d"
          by simp
        ultimately show False by simp
      qed
      then have "re_findall U rx d = []" by (simp add: re_findall_Nil)
      moreover have "re_findall U rx [] = []"
        using none u by (subst re_findall.simps) simp
      ultimately show ?thesis using u by simp
    next
      case (Cons c u')
      have "re_findall U rx (u' @ d) = re_findall U rx u'"
      proof (rule "1.IH"[rule_format])
        show "length u' < length u" using Cons by simp
        fix i ps r
        assume "(ps, r) \<in> set (rmatch U rx (drop i (u' @ d)))"
        then have "(ps, r) \<in> set (rmatch U rx (drop (Suc i) (u @ d)))" using Cons by simp
        then show "length d \<le> length r" by (rule "1.prems")
      qed
      moreover have "re_findall U rx (u @ d) = re_findall U rx (u' @ d)"
        using none Cons by (subst re_findall.simps) simp
      moreover have "re_findall U rx u = re_findall U rx u'"
        using none Cons by (subst re_findall.simps) simp
      ultimately show ?thesis by simp
    qed
  next
    case (Cons m ms)
    obtain ps r where m: "m = (ps, r)" by (cases m)
    with Cons have mem: "(ps, r) \<in> set (rmatch U rx u)" by simp
    from Cons m here have some: "match_here U rx u = Some (ps, r)"
      "match_here U rx (u @ d) = Some (ps, r @ d)"
      by (simp_all add: match_here_Some)
    from shrink[OF mem] have lt: "length r < length u" .
    from mem have u: "u = concat ps @ r" by (simp add: rmatch_iff)
    have "re_findall U rx (r @ d) = re_findall U rx r"
    proof (rule "1.IH"[rule_format])
      show "length r < length u" by (rule lt)
      fix i ps' r'
      assume "(ps', r') \<in> set (rmatch U rx (drop i (r @ d)))"
      moreover have "drop i (r @ d) = drop (length (concat ps) + i) (u @ d)"
        by (subst u) (simp add: drop_append)
      ultimately have "(ps', r') \<in> set (rmatch U rx (drop (length (concat ps) + i) (u @ d)))"
        by simp
      then show "length d \<le> length r'" by (rule "1.prems")
    qed
    moreover have "re_findall U rx (u @ d) = ps # re_findall U rx (r @ d)"
      using some lt by (subst re_findall.simps) simp
    moreover have "re_findall U rx u = ps # re_findall U rx r"
      using some lt by (subst re_findall.simps) simp
    ultimately show ?thesis by simp
  qed
qed

lemma colon_in_no_class: "c \<noteq> AnyChar \<Longrightarrow> \<not> in_class U c 58"
  by (cases c) (simp_all add: is_word_def is_digit_def is_ascii_def)

lemma blank_in_no_class: "c \<noteq> AnyChar \<Longrightarrow> \<not> in_class U c 32"
  by (cases c) (simp_all add: is_word_def is_digit_def is_ascii_def)

lemma colon_not_in: "c \<noteq> AnyChar \<Longrightarrow> list_all (in_class U c) p \<Longrightarrow> 58 \<notin> set p"
  using colon_in_no_class by (auto simp: list_all_iff)

lemma blank_not_in: "c \<noteq> AnyChar \<Longrightarrow> list_all (in_class U c) p \<Longrightarrow> 32 \<notin> set p"
  using blank_in_no_class by (auto simp: list_all_iff)

lemma completion_shape:
  assumes "list_all2 (denotes U) completion_regex ps"
  shows "\<exists>a b n. ps = [str ''Deletion completed in '', a, b, str '' ('', n, str '' keys/sec)'']
           \<and> a \<noteq> [] \<and> list_all (in_class U DigitDot) a
           \<and> b \<noteq> [] \<and> list_all (in_class U Word) b
           \<and> n \<noteq> [] \<and> list_all (in_class U DigitDot) n"
  using assms by (auto simp: completion_regex_def list_all2_Cons1)

lemma completion_text:
  assumes "list_all2 (denotes U) completion_regex ps"
  shows "58 \<notin> set (concat ps)" and "concat ps \<noteq> []" and "last (concat ps) = 41"
proof -
  from completion_shape[OF assms] obtain a b n where
    ps: "ps = [str ''Deletion completed in '', a, b, str '' ('', n, str '' keys/sec)'']"
    and cl: "list_all (in_class U DigitDot) a" "list_all (in_class U Word) b"
      "list_all (in_class U DigitDot) n"
    by blast
  have "58 \<notin> set a"
    by (rule colon_not_in[OF _ cl(1)]) simp
  moreover have "58 \<notin> set b"
    by (rule colon_not_in[OF _ cl(2)]) simp
  moreover have "58 \<notin> set n"
    by (rule colon_not_in[OF _ cl(3)]) simp
  ultimately show "58 \<notin> set (concat ps)" by (simp add: ps str_def)
  show "concat ps \<noteq> []" by (simp add: ps str_def)
  show "last (concat ps) = 41" by (simp add: ps str_def)
qed

lemma append_cases:
  assumes "a @ b = c @ e"
  obtains us where "a = c @ us" "us @ b = e" | us where "a @ us = c" "b = us @ e"
  using assms by (auto simp: append_eq_append_conv2)

text \<open>The start marker begins with \<open>R\<close> (82), which does not occur in it again; it holds
  a colon (58) and no closing parenthesis (41).\<close>

lemma start_marker_head: "start_marker = 82 # tl start_marker" "82 \<notin> set (tl start_marker)"
  by (simp_all add: start_marker_def str_def)

lemma start_marker_chars: "58 \<in> set start_marker" "41 \<notin> set start_marker"
  by (simp_all add: start_marker_def str_def)

lemma no_straddle:
  assumes nm: "\<not> marker_present U completion_regex (start_marker @ rest)"
    and m: "(ps, r) \<in> set (rmatch U completion_regex (drop i (pre @ start_marker @ rest)))"
  shows "length (start_marker @ rest) \<le> length r"
proof (rule ccontr)
  define d where "d = start_marker @ rest"
  define mt where "mt = concat ps"
  assume "\<not> length (start_marker @ rest) \<le> length r"
  then have short: "length r < length d" by (simp add: d_def)
  from m have dr: "drop i (pre @ d) = mt @ r" and ok: "list_all2 (denotes U) completion_regex ps"
    by (simp_all add: rmatch_iff d_def mt_def)
  from dr obtain x where whole: "pre @ d = x @ (mt @ r)"
    by (metis append_take_drop_id)
  have nm': "\<not> marker_present U completion_regex d"
    using nm by (simp add: d_def)
  from whole show False
  proof (cases rule: append_cases)
    case (2 us)
    then have "d = us @ concat ps @ r" by (simp add: mt_def)
    with ok have "marker_present U completion_regex d"
      unfolding marker_present_def by blast
    with nm' show False by simp
  next
    case (1 us)
    from 1(2) show False
    proof (cases rule: append_cases)
      case (1 vs)
      then have "length d \<le> length r" by (metis length_append le_add2)
      with short show False by simp
    next
      case (2 vs)
      with short have vs: "vs \<noteq> []" by auto
      from 2(2) have "vs @ r = start_marker @ rest" by (simp add: d_def)
      then show False
      proof (cases rule: append_cases)
        case (1 ws)
        then have "58 \<in> set vs" by (simp add: start_marker_chars)
        with 2(1) have "58 \<in> set mt" by (metis Un_iff set_append)
        with completion_text(1)[OF ok] show False by (simp add: mt_def)
      next
        case ws: (2 ws)
        from 2(1) vs have "last vs = last mt" by (metis last_appendR)
        with completion_text(3)[OF ok] have "last vs = 41" by (simp add: mt_def)
        with vs have "41 \<in> set vs" by (metis last_in_set)
        with ws(1) have "41 \<in> set start_marker" by (metis Un_iff set_append)
        then show False by (simp add: start_marker_chars)
      qed
    qed
  qed
qed

lemma dangling_sections:
  assumes "\<not> marker_present U completion_regex (start_marker @ rest)"
  shows "re_findall U section_regex (pre @ start_marker @ rest) = re_findall U section_regex pre"
proof (rule re_findall_append)
  fix i ps r
  assume "(ps, r) \<in> set (rmatch U section_regex (drop i (pre @ start_marker @ rest)))"
  then obtain ps2 j where
    "(ps2, r) \<in> set (rmatch U completion_regex (drop j (drop i (pre @ start_marker @ rest))))"
    unfolding section_regex_split by (blast dest: rmatch_of_suffix)
  then have "(ps2, r) \<in> set (rmatch U completion_regex (drop (j + i) (pre @ start_marker @ rest)))"
    by (simp only: drop_drop)
  with assms show "length (start_marker @ rest) \<le> length r" by (rule no_straddle)
next
  fix s ps r
  assume "(ps, r) \<in> set (rmatch U section_regex s)"
  then show "length r < length s" by (rule section_match_shrinks)
qed

subsection \<open>The text before the first start marker\<close>

lemma skip_prefix:
  assumes "\<And>j. j < length pre \<Longrightarrow> rmatch U rx (drop j (pre @ s)) = []"
  shows "re_findall U rx (pre @ s) = re_findall U rx s"
  using assms
proof (induction pre)
  case Nil
  show ?case by simp
next
  case (Cons c pre)
  from Cons.prems[of 0] have "match_here U rx (c # pre @ s) = None"
    by (simp add: match_here_None)
  then have "re_findall U rx ((c # pre) @ s) = re_findall U rx (pre @ s)"
    by (subst re_findall.simps) simp
  moreover have "re_findall U rx (pre @ s) = re_findall U rx s"
  proof (rule Cons.IH)
    fix j assume "j < length pre"
    then have "Suc j < length (c # pre)" by simp
    from Cons.prems[OF this] show "rmatch U rx (drop j (pre @ s)) = []" by simp
  qed
  ultimately show ?case by simp
qed

lemma no_section_without_start:
  "\<not> starts_with start_marker s \<Longrightarrow> rmatch U section_regex s = []"
  by (simp add: section_regex_split)

text \<open>No start marker begins inside another one.\<close>

lemma no_start_inside:
  assumes "0 < k" and "k < length start_marker"
  shows "\<not> starts_with start_marker (drop k start_marker @ rest)"
proof
  define v where "v = drop k start_marker"
  assume "starts_with start_marker (drop k start_marker @ rest)"
  then obtain x where eq: "v @ rest = start_marker @ x"
    by (auto simp: starts_with_iff v_def)
  from assms(2) have ne: "v \<noteq> []" by (simp add: v_def)
  from assms(1) obtain k' where k: "k = Suc k'" by (cases k) auto
  have "v = drop k' (tl start_marker)" by (simp add: v_def k drop_Suc)
  then have "set v \<subseteq> set (tl start_marker)" by (simp add: set_drop_subset)
  with ne have "hd v \<in> set (tl start_marker)" by (meson hd_in_set subsetD)
  moreover from eq ne have "hd v = hd start_marker" by (metis hd_append2 start_marker_head(1) list.distinct(1))
  then have "hd v = 82" by (subst (asm) start_marker_head(1)) simp
  ultimately show False using start_marker_head(2) by simp
qed

text \<open>A start marker that begins in a text without a start marker, before a start marker,
  would end inside that start marker.\<close>

lemma no_start_in_prefix:
  assumes free: "\<not> str_contains start_marker pre" and j: "j < length pre"
  shows "\<not> starts_with start_marker (drop j (pre @ start_marker @ rest))"
proof
  define u where "u = drop j pre"
  assume "starts_with start_marker (drop j (pre @ start_marker @ rest))"
  then obtain x where "drop j (pre @ start_marker @ rest) = start_marker @ x"
    by (auto simp: starts_with_iff)
  with j have eq: "u @ (start_marker @ rest) = start_marker @ x" by (simp add: u_def)
  have pre: "pre = take j pre @ u" by (simp add: u_def)
  from j have ne: "u \<noteq> []" by (simp add: u_def)
  from eq show False
  proof (cases rule: append_cases)
    case (1 us)
    with pre have "pre = take j pre @ start_marker @ us" by simp
    then have "str_contains start_marker pre" unfolding str_contains_iff by blast
    with free show False by simp
  next
    case (2 us)
    show False
    proof (cases "us = []")
      case True
      with 2(1) pre have "pre = take j pre @ start_marker @ []" by simp
      then have "str_contains start_marker pre" unfolding str_contains_iff by blast
      with free show False by simp
    next
      case False
      define k where "k = length u"
      have "drop k (u @ us) = us" by (simp add: k_def)
      with 2(1) have us: "us = drop k start_marker" by simp
      from ne have "0 < k" by (simp add: k_def)
      moreover from 2(1) False have "k < length start_marker"
        by (metis k_def length_append length_greater_0_conv less_add_same_cancel1)
      moreover have "starts_with start_marker (drop k start_marker @ x)"
      proof -
        from 2(2) us have "drop k start_marker @ x = start_marker @ rest" by simp
        then show ?thesis unfolding starts_with_iff by blast
      qed
      ultimately show False using no_start_inside by blast
    qed
  qed
qed

lemma sections_after_prefix:
  assumes "\<not> str_contains start_marker pre"
  shows "re_findall U section_regex (pre @ start_marker @ rest)
           = re_findall U section_regex (start_marker @ rest)"
proof (rule skip_prefix)
  fix j assume "j < length pre"
  with assms have "\<not> starts_with start_marker (drop j (pre @ start_marker @ rest))"
    by (rule no_start_in_prefix)
  then show "rmatch U section_regex (drop j (pre @ start_marker @ rest)) = []"
    by (rule no_section_without_start)
qed

text \<open>A start marker that no word character follows begins no match, and no match begins
  inside it: the scan goes on after it.\<close>

lemma sections_after_nameless:
  assumes "rest = [] \<or> \<not> in_class U Word (hd rest)"
  shows "re_findall U section_regex (start_marker @ rest) = re_findall U section_regex rest"
proof (rule skip_prefix)
  fix j assume j: "j < length start_marker"
  show "rmatch U section_regex (drop j (start_marker @ rest)) = []"
  proof (cases j)
    case 0
    from assms have "takeWhile (in_class U Word) rest = []" by (cases rest) auto
    then have "rmatch U (Rep Word 1 Greedy # Rep AnyChar 0 Lazy # completion_regex) rest = []"
      by simp
    then show ?thesis
      using 0 by (simp add: section_regex_split starts_with_iff)
  next
    case (Suc j')
    with j have "\<not> starts_with start_marker (drop j start_marker @ rest)"
      by (intro no_start_inside) simp_all
    with j show ?thesis by (simp add: no_section_without_start)
  qed
qed

subsection \<open>The first match after a start marker\<close>

lemma takeWhile_upto: "c \<notin> set x \<Longrightarrow> takeWhile (\<lambda>d. d \<noteq> c) (x @ c # y) = x"
  by (induction x) auto

lemma split_at_first:
  assumes "x @ c # y = x' @ c # y'" and "c \<notin> set x" and "c \<notin> set x'"
  shows "x = x' \<and> y = y'"
proof -
  have "takeWhile (\<lambda>d. d \<noteq> c) (x @ c # y) = x"
    using assms(2) by (rule takeWhile_upto)
  moreover have "takeWhile (\<lambda>d. d \<noteq> c) (x' @ c # y') = x'"
    using assms(3) by (rule takeWhile_upto)
  ultimately have "x = x'" using assms(1) by simp
  with assms(1) show ?thesis by simp
qed

lemma completion_found:
  assumes "a \<noteq> []" "list_all (in_class U DigitDot) a" "b \<noteq> []" "list_all (in_class U Word) b"
    "num \<noteq> []" "list_all (in_class U DigitDot) num"
  shows "([str ''Deletion completed in '', a, b, str '' ('', num, str '' keys/sec)''], post)
           \<in> set (rmatch U completion_regex (completion_marker (a @ b) num @ post))"
proof -
  have len: "Suc 0 \<le> length a" "Suc 0 \<le> length b" "Suc 0 \<le> length num"
    using assms(1,3,5) by (simp_all add: Suc_le_eq)
  have "list_all2 (denotes U) completion_regex
          [str ''Deletion completed in '', a, b, str '' ('', num, str '' keys/sec)'']"
    unfolding completion_regex_def using assms(2,4,6) len by simp
  moreover have "completion_marker (a @ b) num @ post
      = concat [str ''Deletion completed in '', a, b, str '' ('', num, str '' keys/sec)''] @ post"
    unfolding completion_marker_def by simp
  ultimately show ?thesis
    unfolding rmatch_iff by blast
qed

lemma completion_unique:
  assumes a: "list_all (in_class U DigitDot) a" and b: "list_all (in_class U Word) b"
    and n: "list_all (in_class U DigitDot) num"
    and m: "(ps, r) \<in> set (rmatch U completion_regex (completion_marker (a @ b) num @ post))"
  shows "r = post \<and> ps ! 1 @ ps ! 2 = a @ b \<and> ps ! 4 = num"
proof -
  from m have eq: "completion_marker (a @ b) num @ post = concat ps @ r"
    and ok: "list_all2 (denotes U) completion_regex ps"
    by (simp_all add: rmatch_iff)
  from completion_shape[OF ok] obtain a' b' n' where
    ps: "ps = [str ''Deletion completed in '', a', b', str '' ('', n', str '' keys/sec)'']"
    and cl: "list_all (in_class U DigitDot) a'" "list_all (in_class U Word) b'"
      "list_all (in_class U DigitDot) n'"
    by blast
  have blank: "32 \<notin> set (a @ b)" "32 \<notin> set (a' @ b')"
    "32 \<notin> set num" "32 \<notin> set n'"
    using a b n cl blank_not_in[of DigitDot] blank_not_in[of Word] by auto
  from eq ps have
    "(a @ b) @ 32 # (40 # num @ str '' keys/sec)'' @ post)
       = (a' @ b') @ 32 # (40 # n' @ str '' keys/sec)'' @ r)"
    by (simp add: completion_marker_def str_def)
  from split_at_first[OF this blank(1,2)] have tok: "a @ b = a' @ b'"
    and rest: "num @ 32 # (str ''keys/sec)'' @ post) = n' @ 32 # (str ''keys/sec)'' @ r)"
    by (simp_all add: str_def)
  from split_at_first[OF rest blank(3,4)] have "num = n'" "post = r" by (simp_all add: str_def)
  with tok ps show ?thesis by simp
qed

lemma first_section:
  assumes nm1: "fst_name \<noteq> []" "list_all (in_class U Word) fst_name"
    and gap: "gap \<noteq> []" "\<not> in_class U Word (hd gap)"
    and a: "a \<noteq> []" "list_all (in_class U DigitDot) a"
    and b: "b \<noteq> []" "list_all (in_class U Word) b"
    and num: "num \<noteq> []" "list_all (in_class U DigitDot) num"
    and clear: "list_all (\<lambda>j. rmatch U completion_regex
                    (drop j (gap @ completion_marker (a @ b) num @ post)) = [])
                  [0..<length gap]"
  shows "pattern_sections U (start_marker @ fst_name @ gap @ completion_marker (a @ b) num @ post)
           = (fst_name, a @ b, num) # pattern_sections U post"
proof -
  let ?C = "completion_marker (a @ b) num"
  let ?s = "start_marker @ fst_name @ gap @ ?C @ post"
  from completion_found[OF a b num, of post]
  obtain m ms where ms: "rmatch U completion_regex (?C @ post) = m # ms"
    by (cases "rmatch U completion_regex (?C @ post)") auto
  obtain psc rc where m: "m = (psc, rc)" by (cases m)
  with ms have mem: "(psc, rc) \<in> set (rmatch U completion_regex (?C @ post))" by simp
  from completion_unique[OF a(2) b(2) num(2) mem]
  have u: "rc = post" "psc ! 1 @ psc ! 2 = a @ b" "psc ! 4 = num" by simp_all
  from ms m u(1) have c: "match_here U completion_regex (?C @ post) = Some (psc, post)"
    by (simp add: match_here_Some)
  have lazy: "match_here U (Rep AnyChar 0 Lazy # completion_regex) (gap @ ?C @ post)
          = Some (gap # psc, post)"
  proof (rule first_after_lazy[OF _ c])
    fix j assume "j < length gap"
    with clear show "rmatch U completion_regex (drop j (gap @ ?C @ post)) = []"
      by (simp add: list_all_iff)
  qed
  have stop: "gap @ ?C @ post = [] \<or> \<not> in_class U Word (hd (gap @ ?C @ post))"
    using gap by simp
  have "1 \<le> length fst_name" using nm1(1) by (simp add: Suc_le_eq)
  with nm1(2) have
    "match_here U (Rep Word 1 Greedy # Rep AnyChar 0 Lazy # completion_regex)
        (fst_name @ gap @ ?C @ post) = Some (fst_name # gap # psc, post)"
    using stop lazy by (rule first_after_greedy)
  then have "match_here U (Lit start_marker # Rep Word 1 Greedy # Rep AnyChar 0 Lazy
                 # completion_regex) (start_marker @ fst_name @ gap @ ?C @ post)
               = Some (start_marker # fst_name # gap # psc, post)"
    by (rule first_after_literal)
  then have here: "match_here U section_regex ?s = Some (start_marker # fst_name # gap # psc, post)"
    by (simp add: section_regex_split)
  have "length post < length ?s" by (simp add: start_marker_def str_def)
  with here have "re_findall U section_regex ?s
      = (start_marker # fst_name # gap # psc) # re_findall U section_regex post"
    by (subst re_findall.simps) simp
  moreover have "section_groups (start_marker # fst_name # gap # psc) = (fst_name, a @ b, num)"
    using u by (simp add: section_groups_def)
  ultimately show ?thesis
    by (simp add: pattern_sections_def)
qed

text \<open>
  Claim C10 as stated fails: in the text \<open>nameless_first\<close> two start markers come before
  the only completion line, and no name follows the first of them. The completion is
  paired with \<open>b\<close>, the name of the second start marker.
\<close>

theorem first_marker_name_counterexample:
  "nameless_first
     = start_marker @ [10] @ start_marker @ str ''b'' @ [10]
         @ completion_marker (str ''2ms'') (str ''7'')
   \<and> entries latin1 nameless_first
       = Inr [\<lparr>pattern = str ''b'', time_sec = 2 / 1000, keys_per_sec = 7\<rparr>]"
proof -
  have "nameless_first
     = start_marker @ [10] @ start_marker @ str ''b'' @ [10]
         @ completion_marker (str ''2ms'') (str ''7'')"
    by (simp add: nameless_first_def start_marker_def completion_marker_def str_def)
  moreover have "entries latin1 nameless_first
       = Inr [\<lparr>pattern = str ''b'', time_sec = 2 / 1000, keys_per_sec = 7\<rparr>]"
    by code_simp
  ultimately show ?thesis by (rule conjI)
qed

text \<open>
  Claim C10, amended. When no completion line occurs from a start marker on, the blocks
  found in the text are those found in the text before that start marker, and so are the
  entries built from them or the error raised for them: the dangling marker adds no entry
  and no error. The entries of a report the parser returns are then those of the text
  before the marker, and an error of the parser is one of that text's blocks or one of
  \<open>int()\<close> on the tree size or the branching factor. When two start markers come before
  the first completion line after them, with no start marker before them, a name directly
  after the first one and no completion line beginning in between, the parser pairs that
  completion with the name of the first start marker and goes on after the completion;
  the second name is paired with nothing. A first start marker that no word character
  follows is passed over: the blocks are those of the text after it, so that a completion
  line after it is paired with the name of the next start marker that has one. Since the
  scan goes on with the text after a completion line, the last two statements apply again
  to that text.
\<close>

theorem dangling_start_markers:
  "(\<not> marker_present U completion_regex (start_marker @ rest) \<longrightarrow>
      pattern_sections U (earlier @ start_marker @ rest) = pattern_sections U earlier
      \<and> entries U (earlier @ start_marker @ rest) = entries U earlier
      \<and> (parse_content U (earlier @ start_marker @ rest) = Inr r \<longrightarrow>
           entries U earlier = Inr (pattern_results r))
      \<and> (parse_content U (earlier @ start_marker @ rest) = Inl e \<longrightarrow>
           int_field U keys_regex (earlier @ start_marker @ rest) = Inl e
           \<or> int_field U bf_regex (earlier @ start_marker @ rest) = Inl e
           \<or> entries U earlier = Inl e))
   \<and> (\<not> str_contains start_marker pre
        \<and> fst_name \<noteq> [] \<and> list_all (in_class U Word) fst_name
        \<and> fst_gap \<noteq> [] \<and> \<not> in_class U Word (hd fst_gap)
        \<and> a \<noteq> [] \<and> list_all (in_class U DigitDot) a
        \<and> b \<noteq> [] \<and> list_all (in_class U Word) b
        \<and> num \<noteq> [] \<and> list_all (in_class U DigitDot) num
        \<and> list_all (\<lambda>j. rmatch U completion_regex
                    (drop j ((fst_gap @ start_marker @ snd_name @ snd_gap)
                       @ completion_marker (a @ b) num @ post)) = [])
             [0..<length (fst_gap @ start_marker @ snd_name @ snd_gap)] \<longrightarrow>
      pattern_sections U (pre @ start_marker @ fst_name @ fst_gap @ start_marker @ snd_name
          @ snd_gap @ completion_marker (a @ b) num @ post)
        = (fst_name, a @ b, num) # pattern_sections U post)
   \<and> (\<not> str_contains start_marker pre
        \<and> (unnamed = [] \<or> \<not> in_class U Word (hd unnamed)) \<longrightarrow>
      pattern_sections U (pre @ start_marker @ unnamed) = pattern_sections U unnamed)"
proof (intro conjI impI)
  assume nm: "\<not> marker_present U completion_regex (start_marker @ rest)"
  from dangling_sections[OF nm, of earlier]
  show sec: "pattern_sections U (earlier @ start_marker @ rest) = pattern_sections U earlier"
    by (simp add: pattern_sections_def)
  then show ent: "entries U (earlier @ start_marker @ rest) = entries U earlier"
    by (simp add: entries_def)
  {
    assume "parse_content U (earlier @ start_marker @ rest) = Inr r"
    then have "entries U (earlier @ start_marker @ rest) = Inr (pattern_results r)"
      by (simp add: parse_content_returns)
    then show "entries U earlier = Inr (pattern_results r)" by (simp add: ent)
  }
  {
    assume "parse_content U (earlier @ start_marker @ rest) = Inl e"
    from parse_content_raises[OF this]
    show "int_field U keys_regex (earlier @ start_marker @ rest) = Inl e
           \<or> int_field U bf_regex (earlier @ start_marker @ rest) = Inl e
           \<or> entries U earlier = Inl e"
      by (simp add: ent)
  }
next
  assume h: "\<not> str_contains start_marker pre
        \<and> fst_name \<noteq> [] \<and> list_all (in_class U Word) fst_name
        \<and> fst_gap \<noteq> [] \<and> \<not> in_class U Word (hd fst_gap)
        \<and> a \<noteq> [] \<and> list_all (in_class U DigitDot) a
        \<and> b \<noteq> [] \<and> list_all (in_class U Word) b
        \<and> num \<noteq> [] \<and> list_all (in_class U DigitDot) num
        \<and> list_all (\<lambda>j. rmatch U completion_regex
                    (drop j ((fst_gap @ start_marker @ snd_name @ snd_gap)
                       @ completion_marker (a @ b) num @ post)) = [])
             [0..<length (fst_gap @ start_marker @ snd_name @ snd_gap)]"
  define gap where "gap = fst_gap @ start_marker @ snd_name @ snd_gap"
  define tail where "tail = fst_name @ gap @ completion_marker (a @ b) num @ post"
  from h have free: "\<not> str_contains start_marker pre" by simp
  from h have g: "gap \<noteq> []" "\<not> in_class U Word (hd gap)" by (simp_all add: gap_def)
  from h have clear: "list_all (\<lambda>j. rmatch U completion_regex
                    (drop j (gap @ completion_marker (a @ b) num @ post)) = [])
             [0..<length gap]"
    unfolding gap_def by blast
  from h have "fst_name \<noteq> []" "list_all (in_class U Word) fst_name"
    "a \<noteq> []" "list_all (in_class U DigitDot) a" "b \<noteq> []" "list_all (in_class U Word) b"
    "num \<noteq> []" "list_all (in_class U DigitDot) num"
    by simp_all
  from first_section[OF this(1,2) g this(3-8) clear]
  have "pattern_sections U (start_marker @ tail) = (fst_name, a @ b, num) # pattern_sections U post"
    by (simp add: tail_def)
  moreover from sections_after_prefix[OF free, of U tail]
  have "pattern_sections U (pre @ start_marker @ tail) = pattern_sections U (start_marker @ tail)"
    by (simp add: pattern_sections_def)
  ultimately have "pattern_sections U (pre @ start_marker @ tail)
      = (fst_name, a @ b, num) # pattern_sections U post"
    by simp
  then show "pattern_sections U (pre @ start_marker @ fst_name @ fst_gap @ start_marker @ snd_name
          @ snd_gap @ completion_marker (a @ b) num @ post)
        = (fst_name, a @ b, num) # pattern_sections U post"
    by (simp add: tail_def gap_def)
next
  assume h: "\<not> str_contains start_marker pre
        \<and> (unnamed = [] \<or> \<not> in_class U Word (hd unnamed))"
  then have free: "\<not> str_contains start_marker pre"
    and stop: "unnamed = [] \<or> \<not> in_class U Word (hd unnamed)"
    by simp_all
  from sections_after_prefix[OF free, of U unnamed] sections_after_nameless[OF stop]
  show "pattern_sections U (pre @ start_marker @ unnamed) = pattern_sections U unnamed"
    by (simp add: pattern_sections_def)
qed

theorem dangling_start_markers_witness:
  "\<not> marker_present latin1 completion_regex (start_marker @ dangling)
   \<and> pattern_sections latin1 (one_block @ start_marker @ dangling)
       = [(str ''a'', str ''2ms'', str ''7'')]
   \<and> entries latin1 (one_block @ start_marker @ dangling)
       = Inr [\<lparr>pattern = str ''a'', time_sec = 2 / 1000, keys_per_sec = 7\<rparr>]
   \<and> \<not> str_contains start_marker header
   \<and> pattern_sections latin1 (header @ start_marker @ str ''a'' @ [10] @ start_marker
          @ str ''b'' @ [10] @ completion_marker (str ''2'' @ [181, 115]) (str ''7'') @ [])
        = [(str ''a'', str ''2'' @ [181, 115], str ''7'')]
   \<and> pattern_sections latin1 (header @ start_marker @ [10]) = []"
proof -
  have "re_findall latin1 completion_regex (start_marker @ dangling) = []"
    by code_simp
  then have nm: "\<not> marker_present latin1 completion_regex (start_marker @ dangling)"
    by (simp add: marker_present_code)
  have one: "pattern_sections latin1 one_block = [(str ''a'', str ''2ms'', str ''7'')]"
    "entries latin1 one_block
       = Inr [\<lparr>pattern = str ''a'', time_sec = 2 / 1000, keys_per_sec = 7\<rparr>]"
    by code_simp+
  have free: "\<not> str_contains start_marker header"
    by code_simp
  have cls: "list_all (in_class latin1 Word) (str ''a'')" "\<not> in_class latin1 Word (hd [10])"
    "list_all (in_class latin1 DigitDot) (str ''2'')" "list_all (in_class latin1 Word) [181, 115]"
    "list_all (in_class latin1 DigitDot) (str ''7'')"
    by code_simp+
  have ne: "str ''a'' \<noteq> []" "str ''2'' \<noteq> []" "str ''7'' \<noteq> []"
    by (simp_all add: str_def)
  have clear: "list_all (\<lambda>j. rmatch latin1 completion_regex
                    (drop j (([10] @ start_marker @ str ''b'' @ [10])
                       @ completion_marker (str ''2'' @ [181, 115]) (str ''7'') @ [])) = [])
             [0..<length ([10] @ start_marker @ str ''b'' @ [10])]"
    by code_simp
  have nil: "pattern_sections latin1 [] = []" "pattern_sections latin1 [10] = []"
    by code_simp+
  from dangling_start_markers[where U = latin1 and rest = dangling and earlier = one_block
      and pre = header and fst_name = "str ''a''" and fst_gap = "[10]" and snd_name = "str ''b''"
      and snd_gap = "[10]" and a = "str ''2''" and b = "[181, 115]" and num = "str ''7''"
      and post = "[]" and unnamed = "[10]"]
    nm one free cls ne clear nil
  show ?thesis by simp
qed

end
